theory Spec2Isabelle
  imports Complex_Main "HOL-Library.AList"
begin

section \<open>The upload page counter\<close>

text \<open>
  The script keeps the quantity field of an order in step with the number of pages of the
  uploaded documents. It consists of a cache object persisted in \<open>localStorage\<close>, a page
  estimator for PDF content, and three listeners for the events of the upload widget.
\<close>

subsection \<open>Values\<close>

text \<open>
  The values the script puts under a cache key: \<open>null\<close> (the marker written while a file is
  being analysed) or a number (a page count). Numbers are the integers.
\<close>

datatype jsvalue = Null | Number int

subsection \<open>JSON texts\<close>

text \<open>
  An item of \<open>localStorage\<close> is a string, and the script goes through \<open>JSON.stringify\<close>
  and \<open>JSON.parse\<close> to write and read it. Both are written out here after their
  definition in the language standard, so that what is stored is the text itself.

  What \<open>JSON.parse\<close> returns: \<open>null\<close>, a boolean, a number, a string, an array or an
  object. A number stands for the value its literal denotes (the rounding to a double is
  not modelled), a string for its code units, and an object for its own properties in the
  order of their creation.
\<close>

datatype json = JNull | JBool bool | JNum rat | JStr "nat list" | JArr "json list"
  | JObj "(nat list \<times> json) list"

datatype error = SyntaxError | ReadError

fun typeof :: "json \<Rightarrow> string" where
  "typeof JNull = ''object''"
| "typeof (JBool b) = ''boolean''"
| "typeof (JNum x) = ''number''"
| "typeof (JStr str) = ''string''"
| "typeof (JArr xs) = ''object''"
| "typeof (JObj ms) = ''object''"

text \<open>
  The tokens of a JSON text. A string token runs from its opening to its closing quote;
  control characters must be escaped, and an escape is one of the eight short ones or
  \<open>\u\<close> with four hexadecimal digits. \<open>lex_string\<close> reads behind the opening quote and
  gives the code units with the number of characters read.
\<close>

datatype token = LBrace | RBrace | LBracket | RBracket | Colon | Comma
  | TNull | TTrue | TFalse | TNum rat | TStr "nat list"

definition is_digit :: "char \<Rightarrow> bool" where
  "is_digit c = (48 \<le> (of_char c :: nat) \<and> (of_char c :: nat) \<le> 57)"

definition digit_val :: "char \<Rightarrow> nat" where
  "digit_val c = of_char c - 48"

definition digits_val :: "string \<Rightarrow> nat" where
  "digits_val ds = foldl (\<lambda>n c. 10 * n + digit_val c) 0 ds"

definition hex_val :: "char \<Rightarrow> nat option" where
  "hex_val c =
    (let n = (of_char c :: nat) in
     if 48 \<le> n \<and> n \<le> 57 then Some (n - 48)
     else if 65 \<le> n \<and> n \<le> 70 then Some (n - 55)
     else if 97 \<le> n \<and> n \<le> 102 then Some (n - 87)
     else None)"

fun hex4 :: "string \<Rightarrow> nat option" where
  "hex4 (a # b # c # d # cs) =
    (case (hex_val a, hex_val b, hex_val c, hex_val d) of
       (Some w, Some x, Some y, Some z) \<Rightarrow> Some (4096 * w + 256 * x + 16 * y + z)
     | _ \<Rightarrow> None)"
| "hex4 cs = None"

definition escape :: "char \<Rightarrow> nat option" where
  "escape e =
    (if e = CHR 0x22 then Some 34
     else if e = CHR 0x5C then Some 92
     else if e = CHR ''/'' then Some 47
     else if e = CHR ''b'' then Some 8
     else if e = CHR ''f'' then Some 12
     else if e = CHR ''n'' then Some 10
     else if e = CHR ''r'' then Some 13
     else if e = CHR ''t'' then Some 9
     else None)"

fun lex_string :: "string \<Rightarrow> (nat list \<times> nat) option" where
  "lex_string [] = None"
| "lex_string (c # cs) =
    (if c = CHR 0x22 then Some ([], 1)
     else if c = CHR 0x5C then
       (case cs of
          [] \<Rightarrow> None
        | e # es \<Rightarrow>
            if e = CHR ''u'' then
              (case hex4 es of
                 None \<Rightarrow> None
               | Some x \<Rightarrow> map_option (\<lambda>(str, n). (x # str, n + 6)) (lex_string (drop 4 es)))
            else
              (case escape e of
                 None \<Rightarrow> None
               | Some x \<Rightarrow> map_option (\<lambda>(str, n). (x # str, n + 2)) (lex_string es)))
     else if (of_char c :: nat) < 32 then None
     else map_option (\<lambda>(str, n). (of_char c # str, n + 1)) (lex_string cs))"

text \<open>
  A number is an optional minus sign, digits without a leading zero, an optional fraction
  and an optional exponent. \<open>lex_number\<close> gives its value with the number of characters
  read.
\<close>

definition lex_digits :: "string \<Rightarrow> (string \<times> string) option" where
  "lex_digits s =
    (case takeWhile is_digit s of [] \<Rightarrow> None | d # ds \<Rightarrow> Some (d # ds, dropWhile is_digit s))"

definition lex_number :: "string \<Rightarrow> (rat \<times> nat) option" where
  "lex_number s =
    (let neg = (take 1 s = ''-'');
         s1 = (if neg then drop 1 s else s)
     in case lex_digits s1 of
          None \<Rightarrow> None
        | Some (ds, s2) \<Rightarrow>
            if 1 < length ds \<and> hd ds = CHR ''0'' then None
            else
              (case (if take 1 s2 = ''.'' then lex_digits (drop 1 s2) else Some ([], s2)) of
                 None \<Rightarrow> None
               | Some (fs, s3) \<Rightarrow>
                   (case (if take 1 s3 = ''e'' \<or> take 1 s3 = ''E''
                          then (let s4 = drop 1 s3;
                                    eneg = (take 1 s4 = ''-'');
                                    s5 = (if eneg \<or> take 1 s4 = ''+'' then drop 1 s4 else s4)
                                in map_option (\<lambda>(es, s6). (eneg, es, s6)) (lex_digits s5))
                          else Some (False, [], s3)) of
                      None \<Rightarrow> None
                    | Some (eneg, es, s6) \<Rightarrow>
                        (let m = (of_nat (digits_val (ds @ fs)) :: rat) / 10 ^ length fs;
                             x = (if eneg then m / 10 ^ digits_val es else m * 10 ^ digits_val es)
                         in Some (if neg then - x else x, length s - length s6)))))"

text \<open>Whitespace between tokens is TAB, LF, CR and space.\<close>

definition is_ws :: "char \<Rightarrow> bool" where
  "is_ws c = (c \<in> set [CHR 0x09, CHR 0x0A, CHR 0x0D, CHR 0x20])"

function tokenize :: "string \<Rightarrow> token list option" where
  "tokenize [] = Some []"
| "tokenize (c # cs) =
    (if is_ws c then tokenize cs
     else if c = CHR ''{'' then map_option (Cons LBrace) (tokenize cs)
     else if c = CHR ''}'' then map_option (Cons RBrace) (tokenize cs)
     else if c = CHR ''['' then map_option (Cons LBracket) (tokenize cs)
     else if c = CHR '']'' then map_option (Cons RBracket) (tokenize cs)
     else if c = CHR '':'' then map_option (Cons Colon) (tokenize cs)
     else if c = CHR '','' then map_option (Cons Comma) (tokenize cs)
     else if c = CHR 0x22 then
       (case lex_string cs of
          None \<Rightarrow> None
        | Some (str, n) \<Rightarrow> map_option (Cons (TStr str)) (tokenize (drop n cs)))
     else if c = CHR ''-'' \<or> is_digit c then
       (case lex_number (c # cs) of
          None \<Rightarrow> None
        | Some (x, n) \<Rightarrow> map_option (Cons (TNum x)) (tokenize (drop (n - 1) cs)))
     else if take 4 (c # cs) = ''null'' then map_option (Cons TNull) (tokenize (drop 3 cs))
     else if take 4 (c # cs) = ''true'' then map_option (Cons TTrue) (tokenize (drop 3 cs))
     else if take 5 (c # cs) = ''false'' then map_option (Cons TFalse) (tokenize (drop 4 cs))
     else None)"
  by pat_completeness auto
termination
  by (relation "measure length") auto

text \<open>
  The grammar, as a machine over the tokens with a stack of the open arrays and objects.
  A finished value goes into the innermost open container, or is the result. A member of
  an object is created as a property; a key that comes again keeps its place and takes the
  new value.
\<close>

datatype frame = FArr "json list" | FObj "(nat list \<times> json) list"
  | FKey "(nat list \<times> json) list" "nat list"

datatype mode = Value | ValueOrClose | KeyOrClose | Key | AfterKey | Next | Done json

fun deliver :: "json \<Rightarrow> frame list \<Rightarrow> (mode \<times> frame list) option" where
  "deliver v [] = Some (Done v, [])"
| "deliver v (FArr acc # st) = Some (Next, FArr (acc @ [v]) # st)"
| "deliver v (FKey ms k # st) = Some (Next, FObj (AList.update k v ms) # st)"
| "deliver v (FObj ms # st) = None"

fun start_value :: "token \<Rightarrow> frame list \<Rightarrow> (mode \<times> frame list) option" where
  "start_value TNull st = deliver JNull st"
| "start_value TTrue st = deliver (JBool True) st"
| "start_value TFalse st = deliver (JBool False) st"
| "start_value (TNum x) st = deliver (JNum x) st"
| "start_value (TStr str) st = deliver (JStr str) st"
| "start_value LBracket st = Some (ValueOrClose, FArr [] # st)"
| "start_value LBrace st = Some (KeyOrClose, FObj [] # st)"
| "start_value t st = None"

fun start_member :: "token \<Rightarrow> frame list \<Rightarrow> (mode \<times> frame list) option" where
  "start_member (TStr k) (FObj ms # st) = Some (AfterKey, FKey ms k # st)"
| "start_member t st = None"

fun close :: "token \<Rightarrow> frame list \<Rightarrow> (mode \<times> frame list) option" where
  "close RBracket (FArr acc # st) = deliver (JArr acc) st"
| "close RBrace (FObj ms # st) = deliver (JObj ms) st"
| "close t st = None"

fun step :: "token \<Rightarrow> mode \<times> frame list \<Rightarrow> (mode \<times> frame list) option" where
  "step t (Value, st) = start_value t st"
| "step t (ValueOrClose, st) = (if t = RBracket then close t st else start_value t st)"
| "step t (KeyOrClose, st) = (if t = RBrace then close t st else start_member t st)"
| "step t (Key, st) = start_member t st"
| "step t (AfterKey, st) = (if t = Colon then Some (Value, st) else None)"
| "step t (Next, st) =
    (if t = Comma
     then (case st of
             FArr acc # st' \<Rightarrow> Some (Value, st)
           | FObj ms # st' \<Rightarrow> Some (Key, st)
           | _ \<Rightarrow> None)
     else close t st)"
| "step t (Done v, st) = None"

fun run_parser :: "mode \<times> frame list \<Rightarrow> token list \<Rightarrow> json option" where
  "run_parser (Done v, st) [] = Some v"
| "run_parser s [] = None"
| "run_parser s (t # ts) = (case step t s of None \<Rightarrow> None | Some s' \<Rightarrow> run_parser s' ts)"

text \<open>
  No object has a key twice: the objects under construction, and the values.
\<close>

fun frame_distinct :: "frame \<Rightarrow> bool" where
  "frame_distinct (FArr acc) = True"
| "frame_distinct (FObj ms) = distinct (map fst ms)"
| "frame_distinct (FKey ms k) = distinct (map fst ms)"

fun keys_distinct :: "json \<Rightarrow> bool" where
  "keys_distinct (JObj ms) = distinct (map fst ms)"
| "keys_distinct v = True"

fun mode_distinct :: "mode \<Rightarrow> bool" where
  "mode_distinct (Done v) = keys_distinct v"
| "mode_distinct m = True"

text \<open>
  \<open>JSON.parse\<close> of what \<open>getItem\<close> returns: a missing item is \<open>null\<close>, which is read as
  the text \<open>null\<close>. A text that is no JSON text raises a \<open>SyntaxError\<close>.
\<close>

definition JSON_parse :: "string option \<Rightarrow> error + json" where
  "JSON_parse text =
    (case tokenize (case text of None \<Rightarrow> ''null'' | Some s \<Rightarrow> s) of
       None \<Rightarrow> Inl SyntaxError
     | Some ts \<Rightarrow> (case run_parser (Value, []) ts of None \<Rightarrow> Inl SyntaxError | Some v \<Rightarrow> Inr v))"

text \<open>
  \<open>JSON.stringify\<close> of the cache object: the properties in their order, each with its
  quoted key and its value. In a key the quote, the backslash and the control characters
  are escaped. An integer is written in decimal digits (as the language does below
  \<open>10\<^sup>2\<^sup>1\<close>).
\<close>

definition hex_digit :: "nat \<Rightarrow> char" where
  "hex_digit n = (if n < 10 then char_of (48 + n) else char_of (87 + n))"

definition quote_char :: "char \<Rightarrow> string" where
  "quote_char c =
    (if c = CHR 0x22 then [CHR 0x5C, CHR 0x22]
     else if c = CHR 0x5C then [CHR 0x5C, CHR 0x5C]
     else if c = CHR 0x08 then [CHR 0x5C, CHR ''b'']
     else if c = CHR 0x09 then [CHR 0x5C, CHR ''t'']
     else if c = CHR 0x0A then [CHR 0x5C, CHR ''n'']
     else if c = CHR 0x0C then [CHR 0x5C, CHR ''f'']
     else if c = CHR 0x0D then [CHR 0x5C, CHR ''r'']
     else if (of_char c :: nat) < 32 then
       [CHR 0x5C, CHR ''u'', CHR ''0'', CHR ''0'',
        hex_digit (of_char c div 16), hex_digit (of_char c mod 16)]
     else [c])"

definition quote :: "string \<Rightarrow> string" where
  "quote k = CHR 0x22 # concat (map quote_char k) @ [CHR 0x22]"

function show_nat :: "nat \<Rightarrow> string" where
  "show_nat n =
    (if n < 10 then [char_of (48 + n)] else show_nat (n div 10) @ [char_of (48 + n mod 10)])"
  by pat_completeness auto
termination
  by (relation "measure id") auto

declare show_nat.simps [simp del]

definition show_int :: "int \<Rightarrow> string" where
  "show_int n = (if n < 0 then CHR ''-'' # show_nat (nat (- n)) else show_nat (nat n))"

fun show_value :: "jsvalue \<Rightarrow> string" where
  "show_value Null = ''null''"
| "show_value (Number n) = show_int n"

fun show_members :: "(string \<times> jsvalue) list \<Rightarrow> string" where
  "show_members [] = []"
| "show_members [(k, v)] = quote k @ CHR '':'' # show_value v"
| "show_members ((k, v) # m # ms) =
    quote k @ CHR '':'' # show_value v @ CHR '','' # show_members (m # ms)"

definition JSON_stringify :: "(string \<times> jsvalue) list \<Rightarrow> string" where
  "JSON_stringify obj = CHR ''{'' # show_members obj @ ''}''"

text \<open>
  The pages below hold in \<open>cache.cache\<close> an object that maps identifiers to \<open>null\<close> or to
  an integer. \<open>as_mapping\<close> reads a value as such an object, when it is one: an object
  whose keys are strings of bytes and whose values are \<open>null\<close> or whole numbers.
\<close>

fun count_of :: "json \<Rightarrow> jsvalue option" where
  "count_of JNull = Some Null"
| "count_of (JNum x) = (if of_int \<lfloor>x\<rfloor> = x then Some (Number \<lfloor>x\<rfloor>) else None)"
| "count_of v = None"

definition key_of :: "nat list \<Rightarrow> string option" where
  "key_of ns = (if list_all (\<lambda>n. n < 256) ns then Some (map char_of ns) else None)"

fun entries :: "(nat list \<times> json) list \<Rightarrow> (string \<times> jsvalue) list option" where
  "entries [] = Some []"
| "entries ((k, v) # ms) =
    (case (key_of k, count_of v, entries ms) of
       (Some a, Some b, Some r) \<Rightarrow> Some ((a, b) # r)
     | _ \<Rightarrow> None)"

fun as_mapping :: "json \<Rightarrow> (string \<times> jsvalue) list option" where
  "as_mapping (JObj ms) = entries ms"
| "as_mapping v = None"

text \<open>The value and the tokens that the text of a cache object stands for.\<close>

fun json_of :: "jsvalue \<Rightarrow> json" where
  "json_of Null = JNull"
| "json_of (Number n) = JNum (of_int n)"

definition members_of :: "(string \<times> jsvalue) list \<Rightarrow> (nat list \<times> json) list" where
  "members_of obj = map (\<lambda>(k, v). (map of_char k, json_of v)) obj"

fun value_token :: "jsvalue \<Rightarrow> token" where
  "value_token Null = TNull"
| "value_token (Number n) = TNum (of_int n)"

fun member_tokens :: "(string \<times> jsvalue) list \<Rightarrow> token list" where
  "member_tokens [] = []"
| "member_tokens [(k, v)] = [TStr (map of_char k), Colon, value_token v]"
| "member_tokens ((k, v) # m # ms) =
    TStr (map of_char k) # Colon # value_token v # Comma # member_tokens (m # ms)"

text \<open>What may follow a number in a text: the end, or a character that is no part of it.\<close>

definition ends_number :: "string \<Rightarrow> bool" where
  "ends_number r =
    (case r of
       [] \<Rightarrow> True
     | c # cs \<Rightarrow> \<not> is_digit c \<and> c \<noteq> CHR ''.'' \<and> c \<noteq> CHR ''e'' \<and> c \<noteq> CHR ''E'')"

subsection \<open>Files and the state of the page\<close>

text \<open>
  A \<open>File\<close> object: its declared type and what \<open>readAsBinaryString\<close> yields, one character
  per byte, or nothing when the reader reports an error.
\<close>

record js_file =
  file_type :: string
  binary :: "string option"

text \<open>
  \<open>detail.file.file\<close> (the field \<open>file_obj\<close> below) is a \<open>File\<close> for a fresh upload and,
  after a reload, only a string.
\<close>

datatype file_handle = RawFile js_file | IdString string

record pond_file =
  serverId :: string
  file_obj :: file_handle

text \<open>
  The state the script reads and writes: \<open>cache.cache\<close>, the \<open>localStorage\<close>, the value of
  the quantity input, and the \<open>change\<close> events dispatched on it, each with the value a
  listener reads from the field at that moment.
\<close>

record state =
  cache :: "(string \<times> jsvalue) list"
  localStorage :: "string \<rightharpoonup> string"
  quantity :: int
  changes :: "int list"

subsection \<open>The cache object\<close>

definition localStorageKey :: string where
  "localStorageKey = ''uploadPageCountCache''"

text \<open>
  \<open>load\<close> assigns to \<open>cache.cache\<close> the parsed value when \<open>typeof\<close> gives \<open>"object"\<close> for
  it and it is not \<open>null\<close>, and an empty object otherwise or when the parse raises.
  \<open>load_value\<close> is the value assigned. \<open>load\<close> gives the page with that cache when the
  value is a mapping of identifiers to counts, and the value itself when it is not: then
  \<open>cache.cache\<close> is an array, or an object with other values, which the pages of this
  theory do not hold.
\<close>

definition load_value :: "(string \<rightharpoonup> string) \<Rightarrow> json" where
  "load_value store =
    (let l = store localStorageKey in
     case JSON_parse l of
       Inr parsed \<Rightarrow> if typeof parsed = ''object'' \<and> parsed \<noteq> JNull then parsed else JObj []
     | Inl e \<Rightarrow> JObj [])"

definition load :: "state \<Rightarrow> json + state" where
  "load s =
    (case as_mapping (load_value (localStorage s)) of
       Some obj \<Rightarrow> Inr (s\<lparr>cache := obj\<rparr>)
     | None \<Rightarrow> Inl (load_value (localStorage s)))"

definition save :: "state \<Rightarrow> state" where
  "save s = s\<lparr>localStorage := (localStorage s)(localStorageKey \<mapsto> JSON_stringify (cache s))\<rparr>"

text \<open>
  The assignment \<open>this.cache[key] = value\<close>. It sets the property the object has under
  the key, or creates one, for every key but \<open>__proto__\<close>: with no property of its own
  under that name the assignment goes to the setter the object inherits, which creates
  none (and for \<open>null\<close> takes the prototype away, which the own properties do not show).
\<close>

definition assign :: "string \<Rightarrow> jsvalue \<Rightarrow> (string \<times> jsvalue) list \<Rightarrow> (string \<times> jsvalue) list" where
  "assign key v obj =
    (if key = ''__proto__'' \<and> key \<notin> fst ` set obj then obj else AList.update key v obj)"

definition setKey :: "string \<Rightarrow> jsvalue \<Rightarrow> state \<Rightarrow> state" where
  "setKey key v s = save (s\<lparr>cache := assign key v (cache s)\<rparr>)"

definition getKey :: "state \<Rightarrow> string \<Rightarrow> jsvalue option" where
  "getKey s key = map_of (cache s) key"

definition hasKey :: "state \<Rightarrow> string \<Rightarrow> bool" where
  "hasKey s key = (key \<in> fst ` set (cache s))"

text \<open>
  \<open>clearExcept\<close> walks the keys the object has when the loop starts and deletes those not
  among \<open>exceptKeys\<close>.
\<close>

definition clearExcept :: "string list \<Rightarrow> state \<Rightarrow> state" where
  "clearExcept exceptKeys s =
    save (s\<lparr>cache :=
      fold (\<lambda>key c. if key \<notin> set exceptKeys then AList.delete key c else c)
        (map fst (cache s)) (cache s)\<rparr>)"

subsection \<open>Aggregate and publication\<close>

text \<open>\<open>v || d\<close> for a cache lookup: \<open>undefined\<close>, \<open>null\<close> and \<open>0\<close> are falsy.\<close>

fun or_else :: "jsvalue option \<Rightarrow> int \<Rightarrow> int" where
  "or_else None d = d"
| "or_else (Some Null) d = d"
| "or_else (Some (Number n)) d = (if n \<noteq> 0 then n else d)"

definition getPageCount :: "pond_file list \<Rightarrow> state \<Rightarrow> int \<times> state" where
  "getPageCount files s =
    (let cacheKeys = map serverId files;
         pageCounts = map (\<lambda>key. or_else (getKey s key) 0) cacheKeys;
         s' = clearExcept cacheKeys s
     in (foldl (\<lambda>acc pageCount. acc + pageCount) 0 pageCounts, s'))"

definition updatePageCount :: "pond_file list \<Rightarrow> state \<Rightarrow> state" where
  "updatePageCount files s =
    (let (pageCount, s') = getPageCount files s;
         v = (if pageCount \<noteq> 0 then pageCount else 1);
         s'' = s'\<lparr>quantity := v\<rparr>
     in s''\<lparr>changes := changes s'' @ [quantity s'']\<rparr>)"

subsection \<open>Regular expressions\<close>

text \<open>
  The fragment of regular expressions that \<open>countPdfPages\<close> uses: a sequence of pieces,
  each a character matcher or a starred character matcher. A matcher is a literal
  character, the class \<open>\s\<close> or a negated one-character class \<open>[^c]\<close>.
\<close>

datatype atom = Chr char | WhiteSpace | NotChr char

datatype piece = One atom | Star atom

text \<open>
  The content comes from \<open>readAsBinaryString\<close>, so every character is a byte. Of the
  characters \<open>\s\<close> matches, these are below 256: TAB, LF, VT, FF, CR, space and the
  no-break space.
\<close>

definition is_space :: "char \<Rightarrow> bool" where
  "is_space c = (c \<in> set [CHR 0x09, CHR 0x0A, CHR 0x0B, CHR 0x0C, CHR 0x0D, CHR 0x20, CHR 0xA0])"

fun atom_matches :: "atom \<Rightarrow> char \<Rightarrow> bool" where
  "atom_matches (Chr x) c = (c = x)"
| "atom_matches WhiteSpace c = is_space c"
| "atom_matches (NotChr x) c = (c \<noteq> x)"

text \<open>
  Matching at the start of the input, with the number of characters consumed. A star is
  greedy: it takes a character when it can and gives it back when the rest fails.
\<close>

fun match_here :: "piece list \<Rightarrow> string \<Rightarrow> nat option" where
  "match_here [] s = Some 0"
| "match_here (One a # r) [] = None"
| "match_here (One a # r) (c # cs) =
    (if atom_matches a c then map_option Suc (match_here r cs) else None)"
| "match_here (Star a # r) [] = match_here r []"
| "match_here (Star a # r) (c # cs) =
    (if atom_matches a c
     then (case match_here (Star a # r) cs of
             Some n \<Rightarrow> Some (Suc n)
           | None \<Rightarrow> match_here r (c # cs))
     else match_here r (c # cs))"

text \<open>
  \<open>String.prototype.match\<close> with a global expression: the search starts at the first
  character and takes the first position where the expression matches; it goes on behind
  the match (one character further after an empty match) until no match is left. The
  result is \<open>null\<close> when nothing matched.
\<close>

function match_all :: "piece list \<Rightarrow> string \<Rightarrow> string list" where
  "match_all r [] = (case match_here r [] of Some n \<Rightarrow> [[]] | None \<Rightarrow> [])"
| "match_all r (c # cs) =
    (case match_here r (c # cs) of
       Some n \<Rightarrow> take n (c # cs) # match_all r (drop (max 1 n) (c # cs))
     | None \<Rightarrow> match_all r cs)"
  by pat_completeness auto
termination
  by (relation "measure (\<lambda>(r, s). length s)") auto

definition string_match :: "string \<Rightarrow> piece list \<Rightarrow> string list option" where
  "string_match s r = (case match_all r s of [] \<Rightarrow> None | m # ms \<Rightarrow> Some (m # ms))"

subsection \<open>Counting pages\<close>

text \<open>The expression \<open>/\/Type[\s]*\/Page[^s]/g\<close>.\<close>

definition page_regex :: "piece list" where
  "page_regex =
    map (\<lambda>c. One (Chr c)) ''/Type'' @ [Star WhiteSpace] @
    map (\<lambda>c. One (Chr c)) ''/Page'' @ [One (NotChr (CHR ''s''))]"

definition countPdfPages :: "js_file \<Rightarrow> error + int" where
  "countPdfPages f =
    (case binary f of
       None \<Rightarrow> Inl ReadError
     | Some fileContent \<Rightarrow>
         (case string_match fileContent page_regex of
            None \<Rightarrow> Inr 1
          | Some matches \<Rightarrow> Inr (int (length matches))))"

definition analyzeFile :: "js_file \<Rightarrow> error + int" where
  "analyzeFile f =
    (if file_type f = ''application/pdf'' then countPdfPages f else Inr 1)"

subsection \<open>The listeners\<close>

text \<open>
  \<open>addFile\<close> runs in two parts. The first runs inside the \<open>processfile\<close> listener, up to
  the \<open>await\<close>. The second runs when the analysis has settled, with the list that
  \<open>detail.pond.getFiles()\<close> gives at that moment; when the read fails the promise is
  rejected and the second part never runs.
\<close>

definition addFile :: "pond_file \<Rightarrow> state \<Rightarrow> state" where
  "addFile detail_file s =
    (case file_obj detail_file of
       IdString x \<Rightarrow> s
     | RawFile f \<Rightarrow> setKey (serverId detail_file) Null s)"

definition addFile_resumed :: "pond_file \<Rightarrow> pond_file list \<Rightarrow> state \<Rightarrow> state" where
  "addFile_resumed detail_file files s =
    (case file_obj detail_file of
       IdString x \<Rightarrow> s
     | RawFile f \<Rightarrow>
         (case analyzeFile f of
            Inl e \<Rightarrow> s
          | Inr pageCount \<Rightarrow>
              (let cacheKey = serverId detail_file in
               if hasKey s cacheKey
               then updatePageCount files (setKey cacheKey (Number pageCount) s)
               else s)))"

text \<open>
  What can happen to the page: the three events of the widget, each with the list its
  \<open>getFiles()\<close> gives when the listener asks, and the completion of an analysis.
\<close>

datatype event =
    Init "pond_file list"
  | Processfile pond_file
  | Analysed pond_file "pond_file list"
  | Removefile "pond_file list"

fun handle :: "event \<Rightarrow> state \<Rightarrow> state" where
  "handle (Init files) s = updatePageCount files s"
| "handle (Processfile detail_file) s = addFile detail_file s"
| "handle (Analysed detail_file files) s = addFile_resumed detail_file files s"
| "handle (Removefile files) s = updatePageCount files s"

definition run :: "event list \<Rightarrow> state \<Rightarrow> state" where
  "run es s = fold handle es s"

text \<open>The events that put a key into the cache: a processed file that brings its content.\<close>

fun starts_analysis :: "string \<Rightarrow> event \<Rightarrow> bool" where
  "starts_analysis key (Processfile detail_file) =
    (serverId detail_file = key \<and> (case file_obj detail_file of RawFile f \<Rightarrow> True | IdString x \<Rightarrow> False))"
| "starts_analysis key e = False"

subsection \<open>The page marker, as the specification words it\<close>

text \<open>
  The marker of a page object is the name \<open>/Type\<close>, whitespace or none, and the name
  \<open>/Page\<close>. \<open>marker_len s\<close> is the length of the marker the text \<open>s\<close> begins with.
\<close>

definition marker_len :: "string \<Rightarrow> nat option" where
  "marker_len s =
    (if take 5 s = ''/Type'' \<and> take 5 (dropWhile is_space (drop 5 s)) = ''/Page''
     then Some (10 + length (takeWhile is_space (drop 5 s)))
     else None)"

text \<open>
  An occurrence at position \<open>i\<close> of the marker not followed by an \<open>s\<close>, and an occurrence
  of the container \<open>/Type /Pages\<close>.
\<close>

definition marker_at :: "string \<Rightarrow> nat \<Rightarrow> bool" where
  "marker_at s i =
    (case marker_len (drop i s) of
       None \<Rightarrow> False
     | Some n \<Rightarrow> (case drop (i + n) s of [] \<Rightarrow> True | c # cs \<Rightarrow> c \<noteq> CHR ''s''))"

definition container_at :: "string \<Rightarrow> nat \<Rightarrow> bool" where
  "container_at s i =
    (case marker_len (drop i s) of
       None \<Rightarrow> False
     | Some n \<Rightarrow> (case drop (i + n) s of [] \<Rightarrow> False | c # cs \<Rightarrow> c = CHR ''s''))"

definition marker_positions :: "string \<Rightarrow> nat list" where
  "marker_positions s = filter (marker_at s) [0..<length s]"

definition container_positions :: "string \<Rightarrow> nat list" where
  "container_positions s = filter (container_at s) [0..<length s]"

text \<open>
  A counted substring: the marker and one further character that is not \<open>s\<close>.
  \<open>counted_here s\<close> is the length of the counted substring the text \<open>s\<close> begins with.
\<close>

definition counted :: "string \<Rightarrow> bool" where
  "counted m =
    (\<exists>ws c. m = ''/Type'' @ ws @ ''/Page'' @ [c] \<and> (\<forall>w\<in>set ws. is_space w) \<and> c \<noteq> CHR ''s'')"

definition counted_here :: "string \<Rightarrow> nat option" where
  "counted_here s =
    (case marker_len s of
       None \<Rightarrow> None
     | Some n \<Rightarrow>
         (case drop n s of
            [] \<Rightarrow> None
          | c # cs \<Rightarrow> if c \<noteq> CHR ''s'' then Some (Suc n) else None))"

text \<open>The counted substrings of a content, from the left, none overlapping another.\<close>

function counted_substrings :: "string \<Rightarrow> string list" where
  "counted_substrings [] = []"
| "counted_substrings (c # cs) =
    (case counted_here (c # cs) of
       Some n \<Rightarrow> take n (c # cs) # counted_substrings (drop n (c # cs))
     | None \<Rightarrow> counted_substrings cs)"
  by pat_completeness auto
termination
  by (relation "measure length")
    (auto simp: counted_here_def split: option.splits list.splits if_splits)

text \<open>
  A content cut into gaps and substrings in turn: a gap, a substring, a gap, and so on up
  to a last gap.
\<close>

fun weave :: "string list \<Rightarrow> string list \<Rightarrow> string" where
  "weave [] ms = []"
| "weave (g # gs) [] = g"
| "weave (g # gs) (m # ms) = g @ m @ weave gs ms"

text \<open>
  The marker at position \<open>i\<close>, if there is one, is followed by one further character
  that is not \<open>s\<close> and that does not begin a marker itself.
\<close>

definition well_followed :: "string \<Rightarrow> nat \<Rightarrow> bool" where
  "well_followed s i =
    (case marker_len (drop i s) of
       None \<Rightarrow> True
     | Some n \<Rightarrow>
         (case drop (i + n) s of
            [] \<Rightarrow> False
          | c # cs \<Rightarrow> c \<noteq> CHR ''s'' \<and> marker_len (c # cs) = None))"

subsection \<open>The aggregate, as the specification words it\<close>


subsection \<open>Example data\<close>

text \<open>
  The files of the end-to-end scenarios: a PDF with three page objects under the
  identifier \<open>s1\<close>, a text file under \<open>s2\<close>, the entry the widget restores for \<open>s1\<close> after a
  reload, and a page with an empty cache, an empty store and the quantity 1.
\<close>

abbreviation pdf_s1 :: pond_file where
  "pdf_s1 \<equiv> \<lparr>serverId = ''s1'', file_obj = RawFile
     \<lparr>file_type = ''application/pdf'',
      binary = Some ''1 0 obj<</Type /Pages>> 2 0 obj<</Type /Page>> 3 0 obj<</Type/Page /X 1>> 4 0 obj<</Type  /Page>>''\<rparr>\<rparr>"

abbreviation txt_s2 :: pond_file where
  "txt_s2 \<equiv> \<lparr>serverId = ''s2'', file_obj = RawFile
     \<lparr>file_type = ''text/plain'', binary = Some ''/Type /Page /Type /Page ''\<rparr>\<rparr>"

abbreviation reloaded_s1 :: pond_file where
  "reloaded_s1 \<equiv> \<lparr>serverId = ''s1'', file_obj = IdString ''s1''\<rparr>"

abbreviation empty_page :: state where
  "empty_page \<equiv> \<lparr>cache = [], localStorage = Map.empty, quantity = 1, changes = []\<rparr>"

abbreviation page_ABC :: state where
  "page_ABC \<equiv> \<lparr>cache = [(''A'', Number 3), (''B'', Null), (''C'', Number 2)],
     localStorage = Map.empty, quantity = 5, changes = []\<rparr>"

section \<open>The text of the cache object\<close>

subsection \<open>Numbers\<close>

text \<open>
  The decimal digits of a number are digits, are not empty, have no leading zero, and
  denote the number; so \<open>lex_number\<close> reads back what \<open>show_int\<close> wrote.
\<close>

lemma is_digit_char_of: "d < 10 \<Longrightarrow> is_digit (char_of (48 + (d::nat)))"
  by (simp add: is_digit_def)

lemma digit_val_char_of: "d < 10 \<Longrightarrow> digit_val (char_of (48 + (d::nat))) = d"
  by (simp add: digit_val_def)

lemma show_nat_digits: "\<forall>c\<in>set (show_nat n). is_digit c"
proof (induction n rule: show_nat.induct)
  case (1 n)
  show ?case
  proof (cases "n < 10")
    case True
    then show ?thesis by (subst show_nat.simps) (simp add: is_digit_char_of)
  next
    case False
    with 1 show ?thesis by (subst show_nat.simps) (simp add: is_digit_char_of)
  qed
qed

lemma show_nat_nonempty: "show_nat n \<noteq> []"
  by (subst show_nat.simps) simp

lemma digits_val_Nil: "digits_val [] = 0"
  by (simp add: digits_val_def)

lemma digits_val_snoc: "digits_val (ds @ [c]) = 10 * digits_val ds + digit_val c"
  by (simp add: digits_val_def)

lemma digits_val_show_nat: "digits_val (show_nat n) = n"
proof (induction n rule: show_nat.induct)
  case (1 n)
  show ?case
  proof (cases "n < 10")
    case True
    then show ?thesis
      by (subst show_nat.simps) (simp add: digits_val_def digit_val_char_of)
  next
    case False
    with 1 show ?thesis
      by (subst show_nat.simps) (simp add: digits_val_snoc digit_val_char_of)
  qed
qed

lemma hd_show_nat: "0 < n \<Longrightarrow> hd (show_nat n) \<noteq> CHR ''0''"
proof (induction n rule: show_nat.induct)
  case (1 n)
  show ?case
  proof (cases "n < 10")
    case True
    have "char_of (48 + n) = (CHR ''0'' :: char) \<Longrightarrow> n = 0"
    proof -
      assume a: "char_of (48 + n) = (CHR ''0'' :: char)"
      have "(of_char (char_of (48 + n) :: char) :: nat) = 48 + n"
        using True by simp
      with a show "n = 0" by simp
    qed
    with True "1.prems" show ?thesis
      by (subst show_nat.simps) auto
  next
    case False
    then have "0 < n div 10" by simp
    with 1 False have "hd (show_nat (n div 10)) \<noteq> CHR ''0''" by simp
    with False show_nat_nonempty [of "n div 10"] show ?thesis
      by (subst show_nat.simps) simp
  qed
qed

lemma show_nat_no_leading_zero:
  "\<not> (1 < length (show_nat n) \<and> hd (show_nat n) = CHR ''0'')"
proof (cases "n < 10")
  case True
  then show ?thesis by (subst show_nat.simps) simp
next
  case False
  then have "0 < n" by simp
  then show ?thesis using hd_show_nat by blast
qed

lemma takeWhile_digits:
  assumes "\<forall>c\<in>set ds. is_digit c" "ends_number r"
  shows "takeWhile is_digit (ds @ r) = ds" "dropWhile is_digit (ds @ r) = r"
proof -
  from assms(2) have "r = [] \<or> \<not> is_digit (hd r)"
    by (cases r) (simp_all add: ends_number_def)
  with assms(1) show "takeWhile is_digit (ds @ r) = ds" "dropWhile is_digit (ds @ r) = r"
    by (cases r; simp add: takeWhile_tail dropWhile_append3)+
qed

lemma lex_digits_show_nat:
  "ends_number r \<Longrightarrow> lex_digits (show_nat n @ r) = Some (show_nat n, r)"
  using takeWhile_digits [OF show_nat_digits, of r n] show_nat_nonempty [of n]
  by (cases "show_nat n") (simp_all add: lex_digits_def)

lemma lex_number_show_nat:
  assumes "ends_number r"
  shows "lex_number (show_nat n @ r) = Some (of_nat n, length (show_nat n))"
proof -
  obtain d ds where d: "show_nat n = d # ds"
    using show_nat_nonempty [of n] by (cases "show_nat n") auto
  have "is_digit d" using show_nat_digits [of n] d by simp
  then have nd: "d \<noteq> CHR ''-''" by (auto simp: is_digit_def)
  have neg: "take 1 (show_nat n @ r) \<noteq> ''-''"
    using nd by (simp add: d)
  have t: "take 1 r \<noteq> ''.''" "take 1 r \<noteq> ''e''" "take 1 r \<noteq> ''E''"
    using assms by (cases r; simp add: ends_number_def)+
  show ?thesis
    unfolding lex_number_def Let_def
    using neg t show_nat_no_leading_zero [of n]
    by (simp add: lex_digits_show_nat [OF assms] digits_val_show_nat digits_val_Nil)
qed

lemma lex_number_show_int:
  assumes "ends_number r"
  shows "lex_number (show_int n @ r) = Some (of_int n, length (show_int n))"
proof (cases "n < 0")
  case False
  then show ?thesis
    using lex_number_show_nat [OF assms, of "nat n"] by (simp add: show_int_def)
next
  case True
  let ?m = "nat (- n)"
  have t: "take 1 r \<noteq> ''.''" "take 1 r \<noteq> ''e''" "take 1 r \<noteq> ''E''"
    using assms by (cases r; simp add: ends_number_def)+
  have "lex_number (CHR ''-'' # show_nat ?m @ r) = Some (- of_nat ?m, Suc (length (show_nat ?m)))"
    unfolding lex_number_def Let_def
    using t show_nat_no_leading_zero [of ?m]
    by (simp add: lex_digits_show_nat [OF assms] digits_val_show_nat digits_val_Nil)
  moreover have "- (of_nat ?m :: rat) = of_int n"
    using True by simp
  ultimately show ?thesis
    using True by (simp add: show_int_def)
qed

subsection \<open>Keys\<close>

text \<open>\<open>lex_string\<close> reads back the key that \<open>quote\<close> wrote, whatever its characters.\<close>

lemma hex_val_hex_digit: "d < 16 \<Longrightarrow> hex_val (hex_digit d) = Some d"
  by (auto simp: hex_val_def hex_digit_def Let_def)

lemma hex4_control:
  "n < 32 \<Longrightarrow> hex4 (CHR ''0'' # CHR ''0'' # hex_digit (n div 16) # hex_digit (n mod 16) # rest) = Some n"
proof -
  assume n: "n < 32"
  then have "n div 16 < 16" "n mod 16 < 16" by simp_all
  then have "hex_val (hex_digit (n div 16)) = Some (n div 16)"
    "hex_val (hex_digit (n mod 16)) = Some (n mod 16)"
    by (simp_all add: hex_val_hex_digit)
  moreover have "hex_val (CHR ''0'') = Some 0"
    by (simp add: hex_val_def)
  ultimately show ?thesis by simp
qed

lemma lex_string_quote_char:
  "lex_string (quote_char c @ rest) =
    map_option (\<lambda>(str, m). (of_char c # str, m + length (quote_char c))) (lex_string rest)"
proof -
  consider "c = CHR 0x22" | "c = CHR 0x5C" | "c = CHR 0x08" | "c = CHR 0x09" | "c = CHR 0x0A"
    | "c = CHR 0x0C" | "c = CHR 0x0D"
    | "c \<noteq> CHR 0x22" "c \<noteq> CHR 0x5C" "c \<noteq> CHR 0x08" "c \<noteq> CHR 0x09" "c \<noteq> CHR 0x0A"
      "c \<noteq> CHR 0x0C" "c \<noteq> CHR 0x0D" "(of_char c :: nat) < 32"
    | "c \<noteq> CHR 0x22" "c \<noteq> CHR 0x5C" "\<not> (of_char c :: nat) < 32"
    by (cases "(of_char c :: nat) < 32") auto
  then show ?thesis
  proof cases
    case 8
    then show ?thesis
      by (cases "lex_string rest") (auto simp: quote_char_def hex4_control simp del: hex4.simps)
  next
    case 9
    then have "quote_char c = [c]"
      by (auto simp: quote_char_def)
    with 9 show ?thesis by simp
  qed (simp_all add: quote_char_def escape_def)
qed

lemma lex_string_quoted:
  "lex_string (concat (map quote_char k) @ CHR 0x22 # rest) =
    Some (map of_char k, Suc (length (concat (map quote_char k))))"
proof (induction k)
  case Nil
  then show ?case by simp
next
  case (Cons c k)
  show ?case
    using lex_string_quote_char [of c "concat (map quote_char k) @ CHR 0x22 # rest"] Cons.IH
    by simp
qed

subsection \<open>Tokens and grammar\<close>

text \<open>
  The text of an object is read as an opening brace, the members with commas between them
  and a closing brace, and the machine builds from them the object with these members,
  when no key comes twice.
\<close>

lemma tokenize_quote:
  "tokenize (quote k @ rest) = map_option (Cons (TStr (map of_char k))) (tokenize rest)"
proof -
  have "quote k @ rest = CHR 0x22 # (concat (map quote_char k) @ CHR 0x22 # rest)"
    by (simp add: quote_def)
  then show ?thesis
    by (simp add: lex_string_quoted is_ws_def)
qed

lemma tokenize_punct:
  "tokenize (CHR '':'' # rest) = map_option (Cons Colon) (tokenize rest)"
  "tokenize (CHR '','' # rest) = map_option (Cons Comma) (tokenize rest)"
  "tokenize (CHR ''{'' # rest) = map_option (Cons LBrace) (tokenize rest)"
  "tokenize ''}'' = Some [RBrace]"
  by (simp_all add: is_ws_def)

lemma show_int_first:
  "\<exists>c cs. show_int n = c # cs \<and> (c = CHR ''-'' \<or> is_digit c)"
proof (cases "n < 0")
  case True
  then show ?thesis by (simp add: show_int_def)
next
  case False
  obtain d ds where d: "show_nat (nat n) = d # ds"
    using show_nat_nonempty [of "nat n"] by (cases "show_nat (nat n)") auto
  with show_nat_digits [of "nat n"] have "is_digit d" by simp
  with False d show ?thesis by (simp add: show_int_def)
qed

lemma tokenize_number:
  assumes "ends_number rest"
  shows "tokenize (show_int n @ rest) = map_option (Cons (TNum (of_int n))) (tokenize rest)"
proof -
  from show_int_first obtain c cs where s: "show_int n = c # cs"
    and c: "c = CHR ''-'' \<or> is_digit c"
    by blast
  from c have nw: "\<not> is_ws c" "c \<noteq> CHR ''{''" "c \<noteq> CHR ''}''" "c \<noteq> CHR ''[''" "c \<noteq> CHR '']''"
    "c \<noteq> CHR '':''" "c \<noteq> CHR '',''" "c \<noteq> CHR 0x22"
    by (auto simp: is_ws_def is_digit_def)
  have l: "lex_number (c # cs @ rest) = Some (of_int n, Suc (length cs))"
    using lex_number_show_int [OF assms, of n] by (simp add: s)
  show ?thesis
    unfolding s using nw c l by simp
qed

lemma tokenize_value:
  assumes "ends_number rest"
  shows "tokenize (show_value v @ rest) = map_option (Cons (value_token v)) (tokenize rest)"
proof (cases v)
  case Null
  then show ?thesis by (simp add: is_ws_def is_digit_def)
next
  case (Number n)
  then show ?thesis using tokenize_number [OF assms] by simp
qed

lemma ends_number_sep: "ends_number (CHR '','' # rest)" "ends_number ''}''"
  by (simp_all add: ends_number_def is_digit_def)

lemma tokenize_members:
  "tokenize (show_members obj @ ''}'') = Some (member_tokens obj @ [RBrace])"
proof (induction obj rule: show_members.induct)
  case 1
  then show ?case by (simp add: is_ws_def)
next
  case (2 k v)
  have "tokenize (quote k @ CHR '':'' # show_value v @ ''}'') =
      Some (member_tokens [(k, v)] @ [RBrace])"
    by (simp add: tokenize_quote tokenize_punct tokenize_value [OF ends_number_sep(2)] is_ws_def)
  then show ?case by simp
next
  case (3 k v m ms)
  have "tokenize (quote k @ CHR '':'' # show_value v @ CHR '','' # show_members (m # ms) @ ''}'') =
      Some (member_tokens ((k, v) # m # ms) @ [RBrace])"
    using "3.IH"
    by (simp add: tokenize_quote tokenize_punct tokenize_value [OF ends_number_sep(1)] is_ws_def)
  then show ?case by simp
qed

lemma tokenize_stringify:
  "tokenize (JSON_stringify obj) = Some (LBrace # member_tokens obj @ [RBrace])"
  by (simp add: JSON_stringify_def tokenize_members is_ws_def)

lemma step_value_token: "start_value (value_token v) st = deliver (json_of v) st"
  by (cases v) simp_all

lemma run_members:
  "run_parser (Key, [FObj ms]) (member_tokens (m # obj) @ [RBrace]) =
    Some (JObj (fold (\<lambda>(k, v). AList.update k v) (members_of (m # obj)) ms))"
proof (induction obj arbitrary: m ms)
  case Nil
  obtain k v where "m = (k, v)" by (cases m)
  then show ?case
    by (simp add: members_of_def step_value_token)
next
  case (Cons a obj)
  obtain k v where m: "m = (k, v)" by (cases m)
  show ?case
    using Cons.IH [of "AList.update (map of_char k) (json_of v) ms" a]
    by (simp add: m members_of_def step_value_token)
qed

lemma run_object:
  "run_parser (Value, []) (LBrace # member_tokens obj @ [RBrace]) =
    Some (JObj (fold (\<lambda>(k, v). AList.update k v) (members_of obj) []))"
proof (cases obj)
  case Nil
  then show ?thesis by (simp add: members_of_def)
next
  case (Cons m obj')
  obtain k v where m: "m = (k, v)" by (cases m)
  have "step (hd (member_tokens (m # obj'))) (KeyOrClose, [FObj []]) =
      step (hd (member_tokens (m # obj'))) (Key, [FObj []])"
    by (cases obj') (simp_all add: m)
  moreover have "member_tokens (m # obj') \<noteq> []"
    by (cases obj') (simp_all add: m)
  ultimately have "run_parser (KeyOrClose, [FObj []]) (member_tokens (m # obj') @ [RBrace]) =
      run_parser (Key, [FObj []]) (member_tokens (m # obj') @ [RBrace])"
    by (cases "member_tokens (m # obj')") simp_all
  then show ?thesis
    using run_members [of "[]" m obj'] by (simp add: Cons)
qed

lemma update_fresh: "k \<notin> fst ` set ms \<Longrightarrow> AList.update k v ms = ms @ [(k, v)]"
  by (induction ms) auto

lemma fold_update_distinct:
  "distinct (map fst (ms @ xs)) \<Longrightarrow> fold (\<lambda>(k, v). AList.update k v) xs ms = ms @ xs"
proof (induction xs arbitrary: ms)
  case Nil
  then show ?case by simp
next
  case (Cons x xs)
  obtain k v where x: "x = (k, v)" by (cases x)
  from Cons.prems have "k \<notin> fst ` set ms" by (auto simp: x)
  then have "AList.update k v ms = ms @ [(k, v)]" by (rule update_fresh)
  moreover from Cons.prems have "distinct (map fst ((ms @ [(k, v)]) @ xs))" by (simp add: x)
  ultimately show ?case using Cons.IH [of "ms @ [(k, v)]"] by (simp add: x)
qed

lemma distinct_members_of:
  "distinct (map fst obj) \<Longrightarrow> distinct (map fst (members_of obj))"
proof -
  assume "distinct (map fst obj)"
  moreover have "map fst (members_of obj) = map (map of_char) (map fst obj)"
    by (simp add: members_of_def split_def comp_def)
  ultimately show ?thesis
    by (simp add: distinct_map inj_on_def)
qed

lemma parse_stringify:
  assumes "distinct (map fst obj)"
  shows "JSON_parse (Some (JSON_stringify obj)) = Inr (JObj (members_of obj))"
proof -
  have "fold (\<lambda>(k, v). AList.update k v) (members_of obj) [] = members_of obj"
    using fold_update_distinct [of "[]" "members_of obj"] distinct_members_of [OF assms] by simp
  moreover have "JSON_parse (Some (JSON_stringify obj)) =
      (case run_parser (Value, []) (LBrace # member_tokens obj @ [RBrace]) of
         None \<Rightarrow> Inl SyntaxError | Some v \<Rightarrow> Inr v)"
    by (simp only: JSON_parse_def option.case tokenize_stringify)
  ultimately show ?thesis
    by (simp only: run_object option.case)
qed

lemma key_of_chars: "key_of (map of_char k) = Some k"
  by (simp add: key_of_def list_all_iff comp_def)

lemma count_of_json_of: "count_of (json_of v) = Some v"
  by (cases v) simp_all

lemma entries_members_of: "entries (members_of obj) = Some obj"
  by (induction obj) (auto simp: members_of_def key_of_chars count_of_json_of)

subsection \<open>Keys of parsed objects\<close>

text \<open>
  An object that \<open>JSON.parse\<close> returns has no key twice, and neither has the mapping
  that is read from it.
\<close>

lemma deliver_distinct:
  assumes "deliver v st = Some (m, st')" "keys_distinct v" "list_all frame_distinct st"
  shows "mode_distinct m \<and> list_all frame_distinct st'"
  using assms by (cases "(v, st)" rule: deliver.cases) (auto simp: distinct_update)

lemma start_value_distinct:
  assumes "start_value t st = Some (m, st')" "list_all frame_distinct st"
  shows "mode_distinct m \<and> list_all frame_distinct st'"
  using assms
  by (cases "(t, st)" rule: start_value.cases) (auto dest: deliver_distinct)

lemma start_member_distinct:
  assumes "start_member t st = Some (m, st')" "list_all frame_distinct st"
  shows "mode_distinct m \<and> list_all frame_distinct st'"
  using assms by (cases "(t, st)" rule: start_member.cases) auto

lemma close_distinct:
  assumes "close t st = Some (m, st')" "list_all frame_distinct st"
  shows "mode_distinct m \<and> list_all frame_distinct st'"
  using assms by (cases "(t, st)" rule: close.cases) (auto dest: deliver_distinct)

lemma step_distinct:
  assumes "step t (m0, st) = Some (m, st')" "list_all frame_distinct st"
  shows "mode_distinct m \<and> list_all frame_distinct st'"
  using assms
  by (cases m0)
    (auto split: if_splits list.splits frame.splits
      dest: start_value_distinct start_member_distinct close_distinct)

lemma run_parser_distinct:
  "run_parser (m, st) ts = Some v \<Longrightarrow> mode_distinct m \<Longrightarrow> list_all frame_distinct st \<Longrightarrow>
    keys_distinct v"
proof (induction ts arbitrary: m st)
  case Nil
  then show ?case by (cases m) simp_all
next
  case (Cons t ts)
  from Cons.prems(1) obtain m' st' where s: "step t (m, st) = Some (m', st')"
    and r: "run_parser (m', st') ts = Some v"
    by (auto split: option.splits)
  from step_distinct [OF s Cons.prems(3)] Cons.IH [OF r] show ?case by blast
qed

lemma JSON_parse_distinct: "JSON_parse text = Inr v \<Longrightarrow> keys_distinct v"
  by (auto simp: JSON_parse_def split: option.splits dest: run_parser_distinct)

lemma key_of_SomeD: "key_of k = Some a \<Longrightarrow> k = map of_char a"
  by (auto simp: key_of_def list_all_iff comp_def intro!: nth_equalityI split: if_splits)

lemma entries_keys: "entries ms = Some obj \<Longrightarrow> map fst ms = map (map of_char) (map fst obj)"
proof (induction ms arbitrary: obj)
  case Nil
  then show ?case by simp
next
  case (Cons m ms)
  obtain k v where m: "m = (k, v)" by (cases m)
  from Cons.prems obtain a b r where "key_of k = Some a" "entries ms = Some r" "obj = (a, b) # r"
    by (auto simp: m split: option.splits)
  with Cons.IH [of r] key_of_SomeD [of k a] show ?case by (simp add: m)
qed

lemma entries_distinct:
  "entries ms = Some obj \<Longrightarrow> distinct (map fst ms) \<Longrightarrow> distinct (map fst obj)"
proof -
  assume e: "entries ms = Some obj" and d: "distinct (map fst ms)"
  from d have "distinct (map (map (of_char :: char \<Rightarrow> nat)) (map fst obj))"
    unfolding entries_keys [OF e] .
  then show ?thesis
    by (simp only: distinct_map)
qed

section \<open>Properties of the cache object\<close>

lemma map_of_assign:
  "map_of (assign key v obj) =
    (if key = ''__proto__'' \<and> key \<notin> fst ` set obj then map_of obj else (map_of obj)(key \<mapsto> v))"
  by (auto simp: assign_def update_conv')

lemma keys_assign:
  "fst ` set (assign key v obj) =
    (if key = ''__proto__'' \<and> key \<notin> fst ` set obj then fst ` set obj
     else insert key (fst ` set obj))"
  by (auto simp: assign_def dom_update)

lemma distinct_assign: "distinct (map fst obj) \<Longrightarrow> distinct (map fst (assign key v obj))"
  by (simp add: assign_def distinct_update)

lemma cache_setKey: "cache (setKey key v s) = assign key v (cache s)"
  by (simp add: setKey_def save_def)

lemma fold_delete_filter:
  "fold (\<lambda>key c. if key \<notin> set ex then AList.delete key c else c) ks c =
   filter (\<lambda>(k, v). \<not> (k \<in> set ks \<and> k \<notin> set ex)) c"
proof (induction ks arbitrary: c)
  case Nil
  then show ?case by simp
next
  case (Cons k ks)
  show ?case
    by (auto simp: Cons.IH AList.delete_eq intro!: filter_cong)
qed

lemma cache_clearExcept:
  "cache (clearExcept ex s) = filter (\<lambda>(k, v). k \<in> set ex) (cache s)"
  unfolding clearExcept_def save_def
  by (force simp: fold_delete_filter intro!: filter_cong)

lemma clearExcept_frame:
  "quantity (clearExcept ex s) = quantity s" "changes (clearExcept ex s) = changes s"
  by (simp_all add: clearExcept_def save_def)

lemma hasKey_setKey:
  "hasKey (setKey key v s) k = (hasKey s k \<or> (k = key \<and> key \<noteq> ''__proto__''))"
  by (auto simp: hasKey_def cache_setKey keys_assign)

subsection \<open>What \<open>load\<close> assigns\<close>

text \<open>
  For every text of the store: a text that does not parse, and one that parses to \<open>null\<close>,
  a boolean, a number or a string, give the empty object; one that parses to an object
  gives that object; one that parses to an array gives the array.
\<close>

lemma load_value_cases:
  "load_value store =
    (case JSON_parse (store localStorageKey) of
       Inl e \<Rightarrow> JObj []
     | Inr JNull \<Rightarrow> JObj []
     | Inr (JBool b) \<Rightarrow> JObj []
     | Inr (JNum x) \<Rightarrow> JObj []
     | Inr (JStr str) \<Rightarrow> JObj []
     | Inr (JArr xs) \<Rightarrow> JArr xs
     | Inr (JObj ms) \<Rightarrow> JObj ms)"
  by (simp add: load_value_def Let_def split: sum.splits json.splits)

lemma load_value_examples:
  \<open>load_value Map.empty = JObj []\<close>
  \<open>load_value [localStorageKey \<mapsto> ''{"A":3''] = JObj []\<close>
  \<open>load_value [localStorageKey \<mapsto> ''null''] = JObj []\<close>
  \<open>load_value [localStorageKey \<mapsto> ''true''] = JObj []\<close>
  \<open>load_value [localStorageKey \<mapsto> ''7''] = JObj []\<close>
  \<open>load_value [localStorageKey \<mapsto> ''"s1"''] = JObj []\<close>
  \<open>load_value [localStorageKey \<mapsto> '' {"A":3, "B":null} ''] = JObj [([65], JNum 3), ([66], JNull)]\<close>
proof -
  have p: \<open>JSON_parse None = Inr JNull\<close>
    \<open>JSON_parse (Some ''{"A":3'') = Inl SyntaxError\<close>
    \<open>JSON_parse (Some ''null'') = Inr JNull\<close>
    \<open>JSON_parse (Some ''true'') = Inr (JBool True)\<close>
    \<open>JSON_parse (Some ''7'') = Inr (JNum 7)\<close>
    \<open>JSON_parse (Some ''"s1"'') = Inr (JStr [115, 49])\<close>
    \<open>JSON_parse (Some '' {"A":3, "B":null} '') = Inr (JObj [([65], JNum 3), ([66], JNull)])\<close>
    by code_simp+
  show \<open>load_value Map.empty = JObj []\<close>
    \<open>load_value [localStorageKey \<mapsto> ''{"A":3''] = JObj []\<close>
    \<open>load_value [localStorageKey \<mapsto> ''null''] = JObj []\<close>
    \<open>load_value [localStorageKey \<mapsto> ''true''] = JObj []\<close>
    \<open>load_value [localStorageKey \<mapsto> ''7''] = JObj []\<close>
    \<open>load_value [localStorageKey \<mapsto> ''"s1"''] = JObj []\<close>
    \<open>load_value [localStorageKey \<mapsto> '' {"A":3, "B":null} ''] = JObj [([65], JNum 3), ([66], JNull)]\<close>
    by (simp_all add: load_value_cases p)
qed

text \<open>
  C8 fails for a text that parses to an array: \<open>typeof\<close> gives \<open>"object"\<close> for an array,
  so \<open>load\<close> with the item \<open>[4,2]\<close> in the store does not reset \<open>cache.cache\<close> to the empty
  mapping but assigns the array to it.
\<close>

theorem load_keeps_array:
  \<open>JSON_parse (Some ''[4,2]'') = Inr (JArr [JNum 4, JNum 2])
   \<and> typeof (JArr [JNum 4, JNum 2]) = ''object''
   \<and> load_value [localStorageKey \<mapsto> ''[4,2]''] = JArr [JNum 4, JNum 2]
   \<and> load (empty_page\<lparr>localStorage := [localStorageKey \<mapsto> ''[4,2]'']\<rparr>) =
        Inl (JArr [JNum 4, JNum 2])\<close>
proof -
  have p: \<open>JSON_parse (Some ''[4,2]'') = Inr (JArr [JNum 4, JNum 2])\<close>
    by code_simp
  then have v: \<open>load_value [localStorageKey \<mapsto> ''[4,2]''] = JArr [JNum 4, JNum 2]\<close>
    by (simp add: load_value_cases)
  then have \<open>load (empty_page\<lparr>localStorage := [localStorageKey \<mapsto> ''[4,2]'']\<rparr>) =
      Inl (JArr [JNum 4, JNum 2])\<close>
    by (simp add: load_def)
  with p v show ?thesis by simp
qed

subsection \<open>The round trip\<close>

lemma load_after_save:
  assumes "distinct (map fst (cache s))" and "localStorage s' = localStorage (save s)"
  shows "load s' = Inr (s'\<lparr>cache := cache s\<rparr>)"
proof -
  have "localStorage s' localStorageKey = Some (JSON_stringify (cache s))"
    by (simp add: assms(2) save_def)
  then have "load_value (localStorage s') = JObj (members_of (cache s))"
    by (simp add: load_value_cases parse_stringify [OF assms(1)])
  then show ?thesis
    by (simp add: load_def entries_members_of)
qed

text \<open>A cache that \<open>load\<close> leaves has no key twice.\<close>

lemma load_distinct: "load s = Inr t \<Longrightarrow> distinct (map fst (cache t))"
proof -
  assume l: "load s = Inr t"
  then obtain obj where a: "as_mapping (load_value (localStorage s)) = Some obj"
    and t: "t = s\<lparr>cache := obj\<rparr>"
    by (auto simp: load_def split: option.splits)
  then obtain ms where v: "load_value (localStorage s) = JObj ms" and e: "entries ms = Some obj"
    by (cases "load_value (localStorage s)") simp_all
  have "keys_distinct (load_value (localStorage s))"
    using JSON_parse_distinct [of "localStorage s localStorageKey"]
    by (auto simp: load_value_def Let_def split: sum.splits)
  with v have "distinct (map fst ms)" by simp
  with e t show ?thesis by (simp add: entries_distinct)
qed

text \<open>
  C6, as amended: on a page whose cache object has no key twice, \<open>setKey(k, v)\<close> for a key
  other than \<open>__proto__\<close> and a value \<open>null\<close> or an integer, followed by \<open>load()\<close> on a page
  that starts from the same \<open>localStorage\<close>, whatever else its state is, leaves the cache
  that \<open>setKey\<close> left, in which \<open>getKey(k)\<close> gives \<open>v\<close>.
\<close>

theorem persistence_round_trip:
  assumes "k \<noteq> ''__proto__''"
    and "distinct (map fst (cache s))"
    and "localStorage s' = localStorage (setKey k v s)"
  shows "load s' = Inr (s'\<lparr>cache := cache (setKey k v s)\<rparr>)
    \<and> getKey (s'\<lparr>cache := cache (setKey k v s)\<rparr>) k = Some v"
proof -
  let ?u = "s\<lparr>cache := assign k v (cache s)\<rparr>"
  have d: "distinct (map fst (cache ?u))"
    using assms(2) by (simp add: distinct_assign)
  have c: "cache (setKey k v s) = cache ?u"
    by (simp add: cache_setKey)
  have "localStorage s' = localStorage (save ?u)"
    by (simp add: assms(3) setKey_def)
  from load_after_save [OF d this] have "load s' = Inr (s'\<lparr>cache := cache (setKey k v s)\<rparr>)"
    by (simp only: c)
  moreover have "getKey (s'\<lparr>cache := cache (setKey k v s)\<rparr>) k = Some v"
    using assms(1) by (simp add: getKey_def cache_setKey map_of_assign)
  ultimately show ?thesis by simp
qed

theorem persistence_round_trip_witness:
  "load (empty_page\<lparr>localStorage := localStorage (setKey ''B'' (Number 7) page_ABC)\<rparr>) =
     Inr (empty_page\<lparr>localStorage := localStorage (setKey ''B'' (Number 7) page_ABC),
       cache := [(''A'', Number 3), (''B'', Number 7), (''C'', Number 2)]\<rparr>)"
proof -
  have h1: "''B'' \<noteq> ''__proto__''"
    by simp
  have h2: "distinct (map fst (cache page_ABC))"
    by simp
  have h3: "localStorage (empty_page\<lparr>localStorage := localStorage (setKey ''B'' (Number 7) page_ABC)\<rparr>)
      = localStorage (setKey ''B'' (Number 7) page_ABC)"
    by simp
  show ?thesis
    using persistence_round_trip [OF h1 h2 h3] by (simp add: cache_setKey assign_def)
qed

text \<open>
  C6, as the specification states it, fails for the key \<open>__proto__\<close>: on a page with an
  empty cache \<open>setKey("__proto__", 5)\<close> creates no property, the text written to the store
  is \<open>{}\<close>, and after \<open>load()\<close> the cache has no entry under the key, so \<open>getKey\<close> does not
  give 5.
\<close>

theorem proto_key_not_stored:
  \<open>localStorage (setKey ''__proto__'' (Number 5) empty_page) localStorageKey = Some ''{}''
   \<and> load (empty_page\<lparr>localStorage := localStorage (setKey ''__proto__'' (Number 5) empty_page)\<rparr>)
      = Inr (empty_page\<lparr>localStorage := localStorage (setKey ''__proto__'' (Number 5) empty_page)\<rparr>)
   \<and> \<not> hasKey (empty_page\<lparr>localStorage :=
        localStorage (setKey ''__proto__'' (Number 5) empty_page)\<rparr>) ''__proto__''
   \<and> getKey (empty_page\<lparr>localStorage :=
        localStorage (setKey ''__proto__'' (Number 5) empty_page)\<rparr>) ''__proto__''
      \<noteq> Some (Number 5)\<close>
proof -
  have t: \<open>localStorage (setKey ''__proto__'' (Number 5) empty_page) localStorageKey = Some ''{}''\<close>
    by (simp add: setKey_def save_def assign_def JSON_stringify_def)
  have \<open>localStorage (empty_page\<lparr>localStorage :=
      localStorage (setKey ''__proto__'' (Number 5) empty_page)\<rparr>) = localStorage (save empty_page)\<close>
    by (simp add: setKey_def assign_def)
  from load_after_save [OF _ this]
  have l: \<open>load (empty_page\<lparr>localStorage := localStorage (setKey ''__proto__'' (Number 5) empty_page)\<rparr>)
      = Inr (empty_page\<lparr>localStorage := localStorage (setKey ''__proto__'' (Number 5) empty_page)\<rparr>)\<close>
    by simp
  from t l show ?thesis
    by (simp add: hasKey_def getKey_def)
qed

section \<open>Aggregate and publication\<close>





lemma getPageCount_frame:
  "quantity (snd (getPageCount files s)) = quantity s"
  "changes (snd (getPageCount files s)) = changes s"
  by (simp_all add: getPageCount_def Let_def clearExcept_frame)

lemma cache_updatePageCount:
  "cache (updatePageCount files s) = filter (\<lambda>(k, v). k \<in> set (map serverId files)) (cache s)"
  by (simp add: updatePageCount_def getPageCount_def Let_def cache_clearExcept)

lemma hasKey_updatePageCount:
  "hasKey (updatePageCount files s) k = (hasKey s k \<and> k \<in> set (map serverId files))"
  by (force simp: hasKey_def cache_updatePageCount)



text \<open>
  C7: \<open>updatePageCount\<close> writes the larger of the aggregate and 1 into the quantity field
  when the aggregate is not negative, so an aggregate of 0 is published as 1, and then
  dispatches one \<open>change\<close> event, whose listeners read the value just written.
\<close>

theorem publish_clamps:
  assumes "0 \<le> fst (getPageCount files s)"
  shows "quantity (updatePageCount files s) = max (fst (getPageCount files s)) 1
    \<and> changes (updatePageCount files s) = changes s @ [max (fst (getPageCount files s)) 1]"
  using assms
  by (auto simp: updatePageCount_def Let_def split_beta getPageCount_frame max_def)

theorem publish_clamps_witness:
  "fst (getPageCount [] page_ABC) = 0
   \<and> quantity (updatePageCount [] page_ABC) = 1
   \<and> changes (updatePageCount [] page_ABC) = [1]"
proof -
  have h: "fst (getPageCount [] page_ABC) = 0"
    by (simp add: getPageCount_def)
  then have "0 \<le> fst (getPageCount [] page_ABC)"
    by simp
  from publish_clamps [OF this] h show ?thesis
    by simp
qed

section \<open>The listeners\<close>




text \<open>
  C9: a \<open>processfile\<close> event whose file is not a \<open>File\<close> object changes nothing: the
  cache, the \<open>localStorage\<close>, the quantity field and the dispatched events stay as they
  are, and no analysis is pending for it.
\<close>

theorem missing_content_no_action:
  "file_obj d = IdString x \<Longrightarrow> handle (Processfile d) s = s \<and> handle (Analysed d files) s = s"
  by (simp add: addFile_def addFile_resumed_def)

theorem missing_content_no_action_witness:
  "handle (Processfile reloaded_s1) page_ABC = page_ABC
   \<and> handle (Analysed reloaded_s1 [reloaded_s1]) page_ABC = page_ABC"
proof -
  have h: "file_obj reloaded_s1 = IdString ''s1''"
    by simp
  show ?thesis
    using missing_content_no_action [OF h, of page_ABC "[reloaded_s1]"] by blast
qed

text \<open>The listeners keep the keys of the cache distinct.\<close>

lemma handle_distinct:
  "distinct (map fst (cache s)) \<Longrightarrow> distinct (map fst (cache (handle e s)))"
  by (cases e)
    (auto simp: cache_updatePageCount addFile_def addFile_resumed_def Let_def cache_setKey
      distinct_assign distinct_map_filter split: file_handle.splits sum.splits)

lemma run_distinct:
  "distinct (map fst (cache s)) \<Longrightarrow> distinct (map fst (cache (run es s)))"
  unfolding run_def by (induction es arbitrary: s) (simp_all add: handle_distinct)

subsection \<open>Removal during an analysis\<close>

lemma handle_keeps_absent:
  "\<not> hasKey s k \<Longrightarrow> \<not> starts_analysis k e \<Longrightarrow> \<not> hasKey (handle e s) k"
proof (cases e)
  case (Init files)
  assume "\<not> hasKey s k"
  with Init show ?thesis by (simp add: hasKey_updatePageCount)
next
  case (Processfile d)
  assume "\<not> hasKey s k" "\<not> starts_analysis k e"
  with Processfile show ?thesis
    by (cases "file_obj d") (auto simp: addFile_def hasKey_setKey)
next
  case (Analysed d files)
  assume "\<not> hasKey s k"
  with Analysed show ?thesis
    by (auto simp: addFile_resumed_def Let_def hasKey_updatePageCount hasKey_setKey
        split: file_handle.splits sum.splits)
next
  case (Removefile files)
  assume "\<not> hasKey s k"
  with Removefile show ?thesis by (simp add: hasKey_updatePageCount)
qed

lemma run_keeps_absent:
  "\<not> hasKey s k \<Longrightarrow> \<forall>e\<in>set es. \<not> starts_analysis k e \<Longrightarrow> \<not> hasKey (run es s) k"
  unfolding run_def
  by (induction es arbitrary: s) (simp_all add: handle_keeps_absent)

lemma run_append: "run (es @ es') s = run es' (run es s)"
  by (simp add: run_def)

lemma resumed_discards: "\<not> hasKey s (serverId d) \<Longrightarrow> addFile_resumed d files s = s"
  by (simp add: addFile_resumed_def Let_def split: file_handle.splits sum.splits)

text \<open>
  C1: let the analysis of a file \<open>F\<close> start (the \<open>processfile\<close> event of a file with
  content, which puts the marker \<open>null\<close> under the key of \<open>F\<close>; only under the name
  \<open>__proto__\<close> the assignment creates no entry), let any events follow, then
  a \<open>removefile\<close> event at which the widget no longer lists \<open>F\<close>, then any events that do not
  start an analysis of \<open>F\<close> again, among them completions of analyses in any order. Then the
  cache has no entry for \<open>F\<close>, and the completion of the analysis of \<open>F\<close> in that state,
  whatever list the widget reports, leaves the whole state as it is.
\<close>

theorem removal_wins:
  assumes started: "file_obj d = RawFile f"
    and removed: "serverId d \<notin> set (map serverId fs)"
    and later: "\<forall>e\<in>set later. \<not> starts_analysis (serverId d) e"
  shows "getKey (handle (Processfile d) s) (serverId d) =
      (if serverId d = ''__proto__'' \<and> \<not> hasKey s (serverId d) then None else Some Null)
    \<and> \<not> hasKey (run ([Processfile d] @ mid @ [Removefile fs] @ later) s) (serverId d)
    \<and> getKey (run ([Processfile d] @ mid @ [Removefile fs] @ later) s) (serverId d) = None
    \<and> handle (Analysed d files) (run ([Processfile d] @ mid @ [Removefile fs] @ later) s) =
        run ([Processfile d] @ mid @ [Removefile fs] @ later) s"
proof -
  let ?t = "run ([Processfile d] @ mid @ [Removefile fs] @ later) s"
  have pending: "getKey (handle (Processfile d) s) (serverId d) =
      (if serverId d = ''__proto__'' \<and> \<not> hasKey s (serverId d) then None else Some Null)"
  proof (cases "serverId d = ''__proto__'' \<and> \<not> hasKey s (serverId d)")
    case True
    then have "\<not> hasKey s (serverId d)"
      by blast
    then have "serverId d \<notin> fst ` set (cache s)"
      by (simp add: hasKey_def)
    then have "map_of (cache s) (serverId d) = None"
      by (simp add: map_of_eq_None_iff)
    with True started show ?thesis
      by (simp add: addFile_def getKey_def hasKey_def cache_setKey map_of_assign)
  next
    case False
    then have "\<not> (serverId d = ''__proto__'' \<and> serverId d \<notin> fst ` set (cache s))"
      by (simp add: hasKey_def)
    then have "map_of (assign (serverId d) Null (cache s)) (serverId d) = Some Null"
      by (cases "serverId d = ''__proto__''") (simp_all add: map_of_assign)
    with False started show ?thesis
      by (simp add: addFile_def getKey_def cache_setKey)
  qed
  have "\<not> hasKey (handle (Removefile fs) (run ([Processfile d] @ mid) s)) (serverId d)"
    using removed by (simp add: hasKey_updatePageCount)
  then have absent: "\<not> hasKey ?t (serverId d)"
    using later run_keeps_absent [of _ "serverId d" later]
    by (simp add: run_append run_def)
  then have none: "getKey ?t (serverId d) = None"
    by (simp add: hasKey_def getKey_def map_of_eq_None_iff)
  have "handle (Analysed d files) ?t = ?t"
    using absent by (simp add: resumed_discards)
  with pending absent none show ?thesis by blast
qed

theorem removal_wins_witness:
  "getKey (run [Processfile pdf_s1, Processfile txt_s2, Removefile [txt_s2],
      Analysed txt_s2 [txt_s2]] empty_page) ''s1'' = None
   \<and> handle (Analysed pdf_s1 [txt_s2])
       (run [Processfile pdf_s1, Processfile txt_s2, Removefile [txt_s2],
          Analysed txt_s2 [txt_s2]] empty_page) =
      run [Processfile pdf_s1, Processfile txt_s2, Removefile [txt_s2],
          Analysed txt_s2 [txt_s2]] empty_page"
proof -
  have h1: "file_obj pdf_s1 = RawFile \<lparr>file_type = ''application/pdf'',
      binary = Some ''1 0 obj<</Type /Pages>> 2 0 obj<</Type /Page>> 3 0 obj<</Type/Page /X 1>> 4 0 obj<</Type  /Page>>''\<rparr>"
    by simp
  have h2: "serverId pdf_s1 \<notin> set (map serverId [txt_s2])"
    by simp
  have h3: "\<forall>e\<in>set [Analysed txt_s2 [txt_s2]]. \<not> starts_analysis (serverId pdf_s1) e"
    by simp
  show ?thesis
    using removal_wins [OF h1 h2 h3, of empty_page "[Processfile txt_s2]" "[txt_s2]"]
    by simp
qed

subsection \<open>The end-to-end scenarios\<close>

text \<open>
  Two files, a PDF with three page objects and a text file: when both analyses have
  completed the quantity is 4. When the PDF is removed before its analysis completes, the
  quantity is 1 and the cache holds the text file only.
\<close>

lemma scenario_two_files:
  "quantity (run [Processfile pdf_s1, Processfile txt_s2, Analysed txt_s2 [pdf_s1, txt_s2],
      Analysed pdf_s1 [pdf_s1, txt_s2]] empty_page) = 4"
  by code_simp

lemma scenario_removed_during_analysis:
  "quantity (run [Processfile pdf_s1, Processfile txt_s2, Removefile [txt_s2],
      Analysed txt_s2 [txt_s2], Analysed pdf_s1 [txt_s2]] empty_page) = 1
   \<and> cache (run [Processfile pdf_s1, Processfile txt_s2, Removefile [txt_s2],
      Analysed txt_s2 [txt_s2], Analysed pdf_s1 [txt_s2]] empty_page) = [(''s2'', Number 1)]"
  by code_simp

section \<open>The page estimator\<close>

subsection \<open>What the expression matches\<close>

text \<open>
  The matcher is taken apart piece by piece: a run of literal characters compares a
  prefix, the starred class before a \<open>/\<close> never has to give a character back, and the
  negated class takes one character. Together they are \<open>counted_here\<close>.
\<close>

lemma not_space_slash: "\<not> is_space (CHR ''/'')"
  by (simp add: is_space_def)

lemma match_here_literal:
  "match_here (map (\<lambda>c. One (Chr c)) lit @ r) t =
    (if take (length lit) t = lit
     then map_option (\<lambda>n. length lit + n) (match_here r (drop (length lit) t))
     else None)"
proof (induction lit arbitrary: t)
  case Nil
  show ?case by (cases "match_here r t") simp_all
next
  case (Cons x lit)
  show ?case
  proof (cases t)
    case Nil
    then show ?thesis by simp
  next
    case (Cons c cs)
    then show ?thesis
      by (auto simp: Cons.IH option.map_comp comp_def)
  qed
qed

lemma match_here_spaces:
  assumes "\<not> is_space x"
  shows "match_here (Star WhiteSpace # One (Chr x) # r) t =
    map_option (\<lambda>n. length (takeWhile is_space t) + n)
      (match_here (One (Chr x) # r) (dropWhile is_space t))"
proof (induction t)
  case Nil
  then show ?case by (simp add: option.map_ident)
next
  case (Cons c cs)
  show ?case
  proof (cases "is_space c")
    case True
    with assms have "c \<noteq> x" by auto
    with True Cons.IH show ?thesis
      by (cases "match_here (One (Chr x) # r) (dropWhile is_space cs)") simp_all
  next
    case False
    then show ?thesis by (simp add: option.map_ident)
  qed
qed

lemma match_here_not_chr:
  "match_here [One (NotChr x)] t = (case t of [] \<Rightarrow> None | c # cs \<Rightarrow> if c \<noteq> x then Some 1 else None)"
  by (cases t) simp_all

lemma drop_takeWhile_length: "drop (length (takeWhile P xs)) xs = dropWhile P xs"
  by (induction xs) simp_all

lemma match_here_lit5:
  assumes "length lit = 5"
  shows "match_here (map (\<lambda>c. One (Chr c)) lit @ r) t =
    (if take 5 t = lit then map_option (\<lambda>n. 5 + n) (match_here r (drop 5 t)) else None)"
  using match_here_literal [of lit r t] unfolding assms .

lemma match_here_tail:
  "match_here (map (\<lambda>c. One (Chr c)) ''/Page'' @ [One (NotChr (CHR ''s''))]) u =
    (if take 5 u = ''/Page''
     then (case drop 5 u of [] \<Rightarrow> None | c # cs \<Rightarrow> if c \<noteq> CHR ''s'' then Some 6 else None)
     else None)"
proof -
  have l: "length ''/Page'' = 5" by simp
  show ?thesis
    unfolding match_here_lit5 [OF l] match_here_not_chr
    by (simp split: list.splits)
qed

lemma match_here_page_regex: "match_here page_regex t = counted_here t"
proof -
  let ?tail = "map (\<lambda>c. One (Chr c)) ''/Page'' @ [One (NotChr (CHR ''s''))]"
  let ?ws = "takeWhile is_space (drop 5 t)"
  let ?u = "dropWhile is_space (drop 5 t)"
  have l: "length ''/Type'' = 5" by simp
  have t: "?tail = One (Chr (CHR ''/'')) # (map (\<lambda>c. One (Chr c)) ''Page'' @ [One (NotChr (CHR ''s''))])"
    by simp
  have r: "page_regex = map (\<lambda>c. One (Chr c)) ''/Type'' @ (Star WhiteSpace # ?tail)"
    by (simp add: page_regex_def)
  have b: "match_here (Star WhiteSpace # ?tail) (drop 5 t) =
    map_option (\<lambda>n. length ?ws + n) (match_here ?tail ?u)"
    unfolding t by (rule match_here_spaces [OF not_space_slash])
  have "drop 5 (drop (length ?ws) (drop 5 t)) = drop (10 + length ?ws) t"
    by simp
  then have d: "drop (10 + length ?ws) t = drop 5 ?u"
    by (simp only: drop_takeWhile_length)
  have "match_here page_regex t =
    (if take 5 t = ''/Type''
     then map_option (\<lambda>n. 5 + n) (map_option (\<lambda>n. length ?ws + n)
       (if take 5 ?u = ''/Page''
        then (case drop 5 ?u of [] \<Rightarrow> None | c # cs \<Rightarrow> if c \<noteq> CHR ''s'' then Some 6 else None)
        else None))
     else None)"
    unfolding r match_here_lit5 [OF l] b match_here_tail ..
  also have "\<dots> = counted_here t"
  proof (cases "take 5 t = ''/Type'' \<and> take 5 ?u = ''/Page''")
    case True
    then have "marker_len t = Some (10 + length ?ws)"
      by (simp add: marker_len_def)
    then have "counted_here t =
        (case drop 5 ?u of [] \<Rightarrow> None | c # cs \<Rightarrow> if c \<noteq> CHR ''s'' then Some (Suc (10 + length ?ws)) else None)"
      by (simp only: counted_here_def option.case d)
    with True show ?thesis
      by (cases "drop 5 ?u") simp_all
  next
    case False
    then have "marker_len t = None"
      by (simp add: marker_len_def)
    with False show ?thesis
      by (auto simp: counted_here_def)
  qed
  finally show ?thesis .
qed

text \<open>The marker and the counted substring in words: what \<open>marker_len\<close> and
  \<open>counted_here\<close> compute.\<close>

lemma marker_len_append:
  assumes "\<forall>w\<in>set ws. is_space w"
  shows "marker_len (''/Type'' @ ws @ ''/Page'' @ rest) = Some (10 + length ws)"
proof -
  have "dropWhile is_space (ws @ CHR ''/'' # ''Page'' @ rest) = CHR ''/'' # ''Page'' @ rest"
    using assms not_space_slash by (simp add: dropWhile_append3)
  moreover have "takeWhile is_space (ws @ CHR ''/'' # ''Page'' @ rest) = ws"
    using assms not_space_slash by (simp add: takeWhile_tail)
  ultimately show ?thesis
    by (simp add: marker_len_def)
qed

lemma marker_len_SomeD:
  assumes "marker_len t = Some m"
  shows "\<exists>ws rest. t = ''/Type'' @ ws @ ''/Page'' @ rest \<and> (\<forall>w\<in>set ws. is_space w)
    \<and> m = 10 + length ws"
proof -
  let ?ws = "takeWhile is_space (drop 5 t)"
  let ?u = "dropWhile is_space (drop 5 t)"
  from assms have a: "take 5 t = ''/Type''" and b: "take 5 ?u = ''/Page''"
    and m: "m = 10 + length ?ws"
    by (auto simp: marker_len_def split: if_splits)
  have "t = take 5 t @ drop 5 t" by simp
  also have "drop 5 t = ?ws @ ?u" by simp
  also have "?u = take 5 ?u @ drop 5 ?u" by simp
  finally have "t = ''/Type'' @ ?ws @ ''/Page'' @ drop 5 ?u"
    unfolding a b .
  moreover have "\<forall>w\<in>set ?ws. is_space w"
    by (auto dest: set_takeWhileD)
  ultimately show ?thesis using m by blast
qed

lemma counted_here_iff:
  "counted_here t = Some n \<longleftrightarrow> n \<le> length t \<and> counted (take n t)"
proof
  assume "counted_here t = Some n"
  then obtain m c cs where m: "marker_len t = Some m" and d: "drop m t = c # cs"
    and c: "c \<noteq> CHR ''s''" and n: "n = Suc m"
    by (auto simp: counted_here_def split: option.splits list.splits if_splits)
  from marker_len_SomeD [OF m] obtain ws rest where
    t: "t = ''/Type'' @ ws @ ''/Page'' @ rest" and ws: "\<forall>w\<in>set ws. is_space w"
    and m': "m = 10 + length ws"
    by blast
  define M where "M = ''/Type'' @ ws @ ''/Page''"
  have tM: "t = M @ rest" by (simp add: M_def t)
  have lM: "length M = m" by (simp add: M_def m')
  from d have rest: "rest = c # cs"
    unfolding tM using lM by simp
  have "take n t = M @ [c]"
    unfolding tM rest n using lM by simp
  then have "take n t = ''/Type'' @ ws @ ''/Page'' @ [c]"
    by (simp add: M_def)
  moreover have "n \<le> length t"
    unfolding tM rest n using lM by simp
  ultimately show "n \<le> length t \<and> counted (take n t)"
    using ws c unfolding counted_def by blast
next
  assume a: "n \<le> length t \<and> counted (take n t)"
  then obtain ws c where tk: "take n t = ''/Type'' @ ws @ ''/Page'' @ [c]"
    and ws: "\<forall>w\<in>set ws. is_space w" and c: "c \<noteq> CHR ''s''"
    unfolding counted_def by blast
  define M where "M = ''/Type'' @ ws @ ''/Page''"
  have lM: "length M = 10 + length ws" by (simp add: M_def)
  have tkM: "take n t = M @ [c]" by (simp add: M_def tk)
  have "t = take n t @ drop n t" by simp
  then have tM: "t = M @ (c # drop n t)"
    unfolding tkM by simp
  have "length (take n t) = n" using a by simp
  then have n: "n = 11 + length ws" unfolding tkM using lM by simp
  have "marker_len (''/Type'' @ ws @ ''/Page'' @ (c # drop n t)) = Some (10 + length ws)"
    by (rule marker_len_append [OF ws])
  moreover have "''/Type'' @ ws @ ''/Page'' @ (c # drop n t) = t"
    using tM by (simp add: M_def)
  ultimately have m: "marker_len t = Some (10 + length ws)"
    by simp
  have "drop (length M) (M @ (c # drop n t)) = c # drop n t"
    by simp
  then have "drop (10 + length ws) t = c # drop n t"
    using tM lM by simp
  with m c n show "counted_here t = Some n"
    by (simp add: counted_here_def)
qed

lemma counted_here_bounds: "counted_here t = Some n \<Longrightarrow> 11 \<le> n \<and> n \<le> length t"
  using counted_here_iff [of t n] marker_len_SomeD [of t]
  by (auto simp: counted_here_def split: option.splits list.splits if_splits)

text \<open>The global search finds the counted substrings from the left.\<close>

lemma match_all_page_regex: "match_all page_regex s = counted_substrings s"
proof (induction s rule: counted_substrings.induct)
  case 1
  show ?case by (simp add: match_here_page_regex counted_here_def marker_len_def)
next
  case (2 c cs)
  show ?case
  proof (cases "counted_here (c # cs)")
    case None
    with 2 show ?thesis by (simp add: match_here_page_regex)
  next
    case (Some n)
    with counted_here_bounds [OF Some] have "max 1 n = n" by simp
    with Some 2 show ?thesis by (simp add: match_here_page_regex)
  qed
qed

lemma counted_substrings_counted: "m \<in> set (counted_substrings s) \<Longrightarrow> counted m"
proof (induction s arbitrary: m rule: counted_substrings.induct)
  case 1
  then show ?case by simp
next
  case (2 c cs)
  then show ?case
    using counted_here_iff [of "c # cs"]
    by (auto split: option.splits)
qed

lemma counted_substrings_weave:
  "\<exists>gs. length gs = Suc (length (counted_substrings s)) \<and> weave gs (counted_substrings s) = s"
proof (induction s rule: counted_substrings.induct)
  case 1
  have "length [[]::string] = Suc (length (counted_substrings [])) \<and> weave [[]] (counted_substrings []) = []"
    by simp
  then show ?case by blast
next
  case (2 c cs)
  show ?case
  proof (cases "counted_here (c # cs)")
    case None
    from "2.IH"(1) [OF None] obtain gs where
      gs: "length gs = Suc (length (counted_substrings cs))" "weave gs (counted_substrings cs) = cs"
      by blast
    then obtain g gs' where g: "gs = g # gs'" by (cases gs) auto
    have "weave ((c # g) # gs') (counted_substrings cs) = c # weave (g # gs') (counted_substrings cs)"
      by (cases "counted_substrings cs") simp_all
    with gs g None have "length ((c # g) # gs') = Suc (length (counted_substrings (c # cs)))
        \<and> weave ((c # g) # gs') (counted_substrings (c # cs)) = c # cs"
      by simp
    then show ?thesis by blast
  next
    case (Some n)
    from "2.IH"(2) [OF Some] obtain gs where
      gs: "length gs = Suc (length (counted_substrings (drop n (c # cs))))"
        "weave gs (counted_substrings (drop n (c # cs))) = drop n (c # cs)"
      by blast
    with Some have "length ([] # gs) = Suc (length (counted_substrings (c # cs)))
        \<and> weave ([] # gs) (counted_substrings (c # cs)) = c # cs"
      by simp
    then show ?thesis by blast
  qed
qed

lemma countPdfPages_counted:
  "binary f = Some content \<Longrightarrow>
    countPdfPages f = Inr (if counted_substrings content = [] then 1
      else int (length (counted_substrings content)))"
  by (simp add: countPdfPages_def string_match_def match_all_page_regex split: list.splits)

text \<open>
  C10: at any position the expression matches exactly a counted substring: \<open>/Type\<close>,
  whitespace or none, \<open>/Page\<close> and one further character that is not \<open>s\<close>. The matches
  of the global search are the counted substrings of the content from the left, none
  overlapping another, with gaps between them, and \<open>countPdfPages\<close> returns their number,
  or 1 when there is none. The further character is part of the match, so a content that
  ends with \<open>/Type /Page\<close> has no match there.
\<close>

theorem estimator_counts_counted_substrings:
  assumes "binary f = Some content"
  shows "(\<forall>t n. (match_here page_regex t = Some n) = (n \<le> length t \<and> counted (take n t)))
    \<and> match_all page_regex content = counted_substrings content
    \<and> (\<forall>m\<in>set (counted_substrings content). counted m)
    \<and> (\<exists>gaps. length gaps = Suc (length (counted_substrings content))
          \<and> weave gaps (counted_substrings content) = content)
    \<and> countPdfPages f = Inr (if counted_substrings content = [] then 1
          else int (length (counted_substrings content)))
    \<and> match_here page_regex ''/Type /Page'' = None
    \<and> \<not> counted ''/Type /Page''"
proof -
  have a: "\<forall>t n. (match_here page_regex t = Some n) = (n \<le> length t \<and> counted (take n t))"
    by (simp add: match_here_page_regex counted_here_iff)
  have e: "match_here page_regex ''/Type /Page'' = None"
    unfolding match_here_page_regex by code_simp
  have "\<not> (11 \<le> length ''/Type /Page'' \<and> counted (take 11 ''/Type /Page''))"
    using a e by (metis option.distinct(1))
  then have g: "\<not> counted ''/Type /Page''"
    by simp
  from a e g match_all_page_regex [of content] counted_substrings_counted [of _ content]
    counted_substrings_weave [of content] countPdfPages_counted [OF assms]
  show ?thesis by blast
qed

theorem estimator_counts_counted_substrings_witness:
  "countPdfPages \<lparr>file_type = ''application/pdf'',
      binary = Some ''1 0 obj<</Type /Pages>> 2 0 obj<</Type /Page>> 3 0 obj<</Type/Page /X 1>> 4 0 obj<</Type  /Page>>''\<rparr> = Inr 3
   \<and> match_all page_regex ''1 0 obj<</Type /Pages>> 2 0 obj<</Type /Page>> 3 0 obj<</Type/Page /X 1>> 4 0 obj<</Type  /Page>>''
      = [''/Type /Page>'', ''/Type/Page '', ''/Type  /Page>'']"
proof -
  have h: "binary \<lparr>file_type = ''application/pdf'',
      binary = Some ''1 0 obj<</Type /Pages>> 2 0 obj<</Type /Page>> 3 0 obj<</Type/Page /X 1>> 4 0 obj<</Type  /Page>>''\<rparr>
    = Some ''1 0 obj<</Type /Pages>> 2 0 obj<</Type /Page>> 3 0 obj<</Type/Page /X 1>> 4 0 obj<</Type  /Page>>''"
    by simp
  have c: "counted_substrings ''1 0 obj<</Type /Pages>> 2 0 obj<</Type /Page>> 3 0 obj<</Type/Page /X 1>> 4 0 obj<</Type  /Page>>''
      = [''/Type /Page>'', ''/Type/Page '', ''/Type  /Page>'']"
    by code_simp
  from estimator_counts_counted_substrings [OF h] show ?thesis
    unfolding c by simp
qed

text \<open>Whitespace between the two names may be line breaks, and may be missing.\<close>

lemma line_breaks_between_names:
  "match_here page_regex (''/Type'' @ [CHR 0x0D, CHR 0x0A] @ ''/Page>>'') = Some 13
   \<and> match_here page_regex ''/Type/Page>>'' = Some 11
   \<and> match_here page_regex ''/Type /Pages'' = None"
  by code_simp

subsection \<open>Contents without a marker\<close>




text \<open>A count is never 0.\<close>

lemma countPdfPages_positive: "countPdfPages f = Inr n \<Longrightarrow> 1 \<le> n"
  by (cases "binary f"; cases "match_all page_regex (the (binary f))")
    (auto simp: countPdfPages_def string_match_def)



subsection \<open>Counting the markers\<close>

text \<open>No marker begins inside a marker.\<close>

lemma marker_len_hd: "x \<noteq> CHR ''/'' \<Longrightarrow> marker_len (x # v) = None"
  by (simp add: marker_len_def)

lemma no_marker_in_Type:
  assumes "0 < j" "j < 5"
  shows "marker_len (drop j (''/Type'' @ w)) = None"
proof -
  from assms have "j = 1 \<or> j = 2 \<or> j = 3 \<or> j = 4" by arith
  then show ?thesis
    by (elim disjE) (simp_all add: marker_len_hd)
qed

lemma no_marker_in_spaces:
  assumes "\<forall>x\<in>set ws. is_space x" "j < length ws"
  shows "marker_len (drop j ws @ w) = None"
proof -
  from assms(2) have "drop j ws = ws ! j # drop (Suc j) ws"
    by (simp add: Cons_nth_drop_Suc)
  moreover from assms have "is_space (ws ! j)" by simp
  then have "ws ! j \<noteq> CHR ''/''" using not_space_slash by auto
  ultimately show ?thesis by (simp add: marker_len_hd)
qed

lemma no_marker_in_Page:
  assumes "j < 5"
  shows "marker_len (drop j (''/Page'' @ w)) = None"
proof -
  from assms have "j = 0 \<or> j = 1 \<or> j = 2 \<or> j = 3 \<or> j = 4" by arith
  then show ?thesis
  proof (elim disjE)
    assume "j = 0"
    then show ?thesis by (simp add: marker_len_def)
  qed (simp_all add: marker_len_hd)
qed

lemma no_marker_inside:
  assumes m: "marker_len t = Some m" and j: "0 < j" "j < m"
  shows "marker_len (drop j t) = None"
proof -
  from marker_len_SomeD [OF m] obtain ws rest where
    t: "t = ''/Type'' @ ws @ ''/Page'' @ rest" and ws: "\<forall>w\<in>set ws. is_space w"
    and m': "m = 10 + length ws"
    by blast
  have d5: "drop 5 t = ws @ ''/Page'' @ rest"
    unfolding t by simp
  have dj: "5 \<le> j \<Longrightarrow> drop j t = drop (j - 5) (drop 5 t)"
    by simp
  consider "j < 5" | "5 \<le> j" "j - 5 < length ws" | "5 \<le> j" "length ws \<le> j - 5"
    by linarith
  then show ?thesis
  proof cases
    case 1
    with j(1) show ?thesis unfolding t by (rule no_marker_in_Type)
  next
    case 2
    have "drop j t = drop (j - 5) ws @ ''/Page'' @ rest"
      unfolding dj [OF 2(1)] d5 using 2(2) by simp
    then show ?thesis
      using no_marker_in_spaces [OF ws 2(2)] by simp
  next
    case 3
    have "drop j t = drop (j - 5 - length ws) (''/Page'' @ rest)"
      unfolding dj [OF 3(1)] d5 using 3(2) by simp
    moreover have "j - 5 - length ws < 5"
      using j(2) m' 3 by linarith
    ultimately show ?thesis
      using no_marker_in_Page by simp
  qed
qed

text \<open>
  Positions of markers under a shift of the content, and the count when every marker is
  followed as \<open>well_followed\<close> asks.
\<close>

lemma marker_at_Suc: "marker_at (c # cs) (Suc i) = marker_at cs i"
  by (simp add: marker_at_def split: option.splits)

lemma well_followed_Suc: "well_followed (c # cs) (Suc i) = well_followed cs i"
  by (simp add: well_followed_def split: option.splits)

lemma well_followed_drop: "well_followed (drop k s) i = well_followed s (k + i)"
  by (simp add: well_followed_def ac_simps split: option.splits)

lemma marker_positions_Cons:
  "length (marker_positions (c # cs)) =
    (if marker_at (c # cs) 0 then 1 else 0) + length (marker_positions cs)"
proof -
  have "[0..<length (c # cs)] = 0 # map Suc [0..<length cs]"
    by (simp add: upt_conv_Cons map_Suc_upt del: upt_Suc)
  then show ?thesis
    by (simp add: marker_positions_def filter_map comp_def marker_at_Suc del: upt_Suc)
qed

lemma marker_positions_skip:
  "\<forall>j<k. \<not> marker_at s j \<Longrightarrow> k \<le> length s \<Longrightarrow>
    length (marker_positions s) = length (marker_positions (drop k s))"
proof (induction s arbitrary: k)
  case Nil
  then show ?case by simp
next
  case (Cons c cs)
  show ?case
  proof (cases k)
    case 0
    then show ?thesis by simp
  next
    case (Suc k')
    with Cons.prems have "\<not> marker_at (c # cs) 0" and "\<forall>j<k'. \<not> marker_at cs j" and "k' \<le> length cs"
      using marker_at_Suc [of c cs] by auto
    with Cons.IH [of k'] Suc show ?thesis
      by (simp add: marker_positions_Cons)
  qed
qed

lemma well_followed_counts:
  "\<forall>i<length s. well_followed s i \<Longrightarrow>
    length (counted_substrings s) = length (marker_positions s)"
proof (induction s rule: counted_substrings.induct)
  case 1
  then show ?case by (simp add: marker_positions_def)
next
  case (2 c cs)
  let ?t = "c # cs"
  from "2.prems" have wf0: "well_followed ?t 0" by simp
  from "2.prems" have wfcs: "\<forall>i<length cs. well_followed cs i"
    using well_followed_Suc [of c cs] by auto
  show ?case
  proof (cases "counted_here ?t")
    case None
    with wf0 have "marker_len ?t = None"
      by (auto simp: counted_here_def well_followed_def split: option.splits list.splits if_splits)
    then have "\<not> marker_at ?t 0"
      by (simp add: marker_at_def)
    with "2.IH"(1) [OF None wfcs] show ?thesis
      by (simp add: marker_positions_Cons None)
  next
    case (Some n)
    then obtain m x xs where m: "marker_len ?t = Some m" and d: "drop m ?t = x # xs"
      and x: "x \<noteq> CHR ''s''" and n: "n = Suc m"
      by (auto simp: counted_here_def split: option.splits list.splits if_splits)
    from counted_here_bounds [OF Some] have nle: "n \<le> length ?t" by simp
    from m d x have at0: "marker_at ?t 0"
      by (simp add: marker_at_def)
    from wf0 m d have after: "marker_len (drop m ?t) = None"
      by (simp add: well_followed_def)
    have none: "\<forall>j<m. \<not> marker_at cs j"
    proof (intro allI impI)
      fix j assume j: "j < m"
      have "marker_len (drop (Suc j) ?t) = None"
      proof (cases "Suc j < m")
        case True
        then show ?thesis using no_marker_inside [OF m, of "Suc j"] by simp
      next
        case False
        with j have "Suc j = m" by simp
        with after show ?thesis by simp
      qed
      then have "\<not> marker_at ?t (Suc j)"
        by (simp add: marker_at_def)
      then show "\<not> marker_at cs j"
        by (simp add: marker_at_Suc)
    qed
    have "m \<le> length cs" using nle n by simp
    from marker_positions_skip [OF none this]
    have skip: "length (marker_positions cs) = length (marker_positions (drop n ?t))"
      by (simp add: n)
    have "\<forall>i<length (drop n ?t). well_followed (drop n ?t) i"
      using "2.prems" by (simp add: well_followed_drop)
    with "2.IH"(2) [OF Some] have "length (counted_substrings (drop n ?t)) =
        length (marker_positions (drop n ?t))"
      by simp
    with Some skip at0 show ?thesis
      by (simp add: marker_positions_Cons)
  qed
qed

lemma well_followed_no_container:
  assumes "\<forall>i<length s. well_followed s i"
  shows "container_positions s = []"
proof -
  have "\<not> container_at s i" if "i < length s" for i
    using assms that
    by (auto simp: container_at_def well_followed_def split: option.splits list.splits)
  then show ?thesis
    by (simp add: container_positions_def filter_empty_conv)
qed

lemma all_below_upt: "\<forall>i\<in>set [0..<n]. P i \<Longrightarrow> \<forall>i<n. P i"
  by simp

text \<open>
  C3, as the specification states it, fails: the content \<open>/Type /Page /Type /Page\<close> has
  two occurrences of \<open>/Type /Page\<close>, at the positions 0 and 12, neither followed by an
  \<open>s\<close>, and no occurrence of \<open>/Type /Pages\<close>, and \<open>countPdfPages\<close> returns 1: nothing
  follows the second occurrence.
\<close>

theorem markers_at_end_undercounted:
  "marker_positions ''/Type /Page /Type /Page'' = [0, 12]
   \<and> take 11 (drop 0 ''/Type /Page /Type /Page'') = ''/Type /Page''
   \<and> take 11 (drop 12 ''/Type /Page /Type /Page'') = ''/Type /Page''
   \<and> container_positions ''/Type /Page /Type /Page'' = []
   \<and> countPdfPages \<lparr>file_type = ''application/pdf'', binary = Some ''/Type /Page /Type /Page''\<rparr> = Inr 1
   \<and> countPdfPages \<lparr>file_type = ''application/pdf'', binary = Some ''/Type /Page /Type /Page''\<rparr>
      \<noteq> Inr (int (length (marker_positions ''/Type /Page /Type /Page'')))"
  by code_simp

text \<open>
  C3, as amended: let every occurrence of the page marker (\<open>/Type\<close>, whitespace or none,
  \<open>/Page\<close>) in a content be followed by one further character that is not \<open>s\<close> and that
  does not begin a marker itself, and let there be \<open>k \<ge> 1\<close> occurrences. Then the content
  has no occurrence of \<open>/Type /Pages\<close> and \<open>countPdfPages\<close> returns \<open>k\<close>.
\<close>

theorem well_followed_markers_counted:
  assumes "binary f = Some content"
    and "\<forall>i<length content. well_followed content i"
    and "1 \<le> length (marker_positions content)"
  shows "countPdfPages f = Inr (int (length (marker_positions content)))
    \<and> container_positions content = []"
proof -
  from assms(2) have "length (counted_substrings content) = length (marker_positions content)"
    by (rule well_followed_counts)
  with assms(1,3) have "countPdfPages f = Inr (int (length (marker_positions content)))"
    by (auto simp: countPdfPages_counted)
  with well_followed_no_container [OF assms(2)] show ?thesis
    by simp
qed

theorem well_followed_markers_counted_witness:
  "marker_positions ''<</Type /Page>> <</Type/Page /X 1>> <</Type  /Page>>'' = [2, 18, 38]
   \<and> countPdfPages \<lparr>file_type = ''application/pdf'',
        binary = Some ''<</Type /Page>> <</Type/Page /X 1>> <</Type  /Page>>''\<rparr> = Inr 3"
proof -
  have h: "binary \<lparr>file_type = ''application/pdf'',
      binary = Some ''<</Type /Page>> <</Type/Page /X 1>> <</Type  /Page>>''\<rparr>
    = Some ''<</Type /Page>> <</Type/Page /X 1>> <</Type  /Page>>''"
    by simp
  have "\<forall>i\<in>set [0..<length ''<</Type /Page>> <</Type/Page /X 1>> <</Type  /Page>>''].
      well_followed ''<</Type /Page>> <</Type/Page /X 1>> <</Type  /Page>>'' i"
    by code_simp
  then have w: "\<forall>i<length ''<</Type /Page>> <</Type/Page /X 1>> <</Type  /Page>>''.
      well_followed ''<</Type /Page>> <</Type/Page /X 1>> <</Type  /Page>>'' i"
    by (rule all_below_upt)
  have m: "marker_positions ''<</Type /Page>> <</Type/Page /X 1>> <</Type  /Page>>'' = [2, 18, 38]"
    by code_simp
  then have k: "1 \<le> length (marker_positions ''<</Type /Page>> <</Type/Page /X 1>> <</Type  /Page>>'')"
    by simp
  from well_followed_markers_counted [OF h w k] m show ?thesis
    by simp
qed

end
